theory Spec2Isabelle
  imports Complex_Main
begin

section \<open>Python values and errors\<close>

text \<open>
  The notebooks are Python. Every exception a modelled function can raise is a value of
  \<open>py_error\<close>; a function that can raise returns \<open>py_error + 'a\<close>, with \<open>Inl\<close>
  for the exception.
\<close>

datatype py_error = NameError | IndexError | ValueError | InvalidGateError

definition py_index :: "'a list \<Rightarrow> int \<Rightarrow> py_error + 'a" where
  \<comment> \<open>Subscription \<open>xs[i]\<close> of a Python sequence: \<open>-len(xs) \<le> i < 0\<close> reads from the end,
     and IndexError is raised outside \<open>-len(xs) \<le> i < len(xs)\<close>.\<close>
  "py_index xs i =
     (if 0 \<le> i \<and> i < int (length xs) then Inr (xs ! nat i)
      else if i < 0 \<and> - int (length xs) \<le> i then Inr (xs ! nat (int (length xs) + i))
      else Inl IndexError)"

definition int_of_char :: "char \<Rightarrow> py_error + nat" where
  \<comment> \<open>Python's \<open>int(c)\<close> for a string \<open>c\<close> of one character: a decimal digit or ValueError.\<close>
  "int_of_char c =
     (let k = of_char c :: nat
      in if 48 \<le> k \<and> k \<le> 57 then Inr (k - 48) else Inl ValueError)"

fun bin_digits :: "nat \<Rightarrow> string" where
  \<comment> \<open>The binary digits of a number, most significant first, as Python's \<open>'b'\<close> format.\<close>
  "bin_digits b =
     (if b < 2 then [if b = 1 then CHR ''1'' else CHR ''0'']
      else bin_digits (b div 2) @ [if b mod 2 = 1 then CHR ''1'' else CHR ''0''])"

definition format_bin :: "nat \<Rightarrow> nat \<Rightarrow> string" where
  \<comment> \<open>\<open>format(b, '0' + str(n) + 'b')\<close>: binary, padded on the left with zeros to width \<open>n\<close>.\<close>
  "format_bin n b = replicate (n - length (bin_digits b)) (CHR ''0'') @ bin_digits b"

section \<open>Gates and circuits\<close>

text \<open>
  The notebooks build circuits with Qiskit's \<open>QuantumCircuit\<close>: \<open>qc.i\<close>, \<open>qc.x\<close>,
  \<open>qc.h\<close>, \<open>qc.cx\<close>, \<open>qc.swap\<close>, \<open>qc.barrier\<close> append one operation each, and
  \<open>qc.measure(q, c)\<close> records qubit \<open>q\<close> into classical bit \<open>c\<close>. An oracle made with
  \<open>to_gate()\<close> and appended on \<open>range(k)\<close> contributes its operations on the same
  qubit numbers, so it is the list of its operations.
\<close>

datatype gate =
    Id_gate nat
  | X_gate nat
  | H_gate nat
  | CX_gate nat nat
  | Swap_gate nat nat
  | Barrier

record circuit =
  num_qubits :: nat
  num_clbits :: nat
  ops :: "gate list"
  measurements :: "(nat \<times> nat) list"

section \<open>Bernstein-Vazirani notebook\<close>

text \<open>
  \<^verbatim>\<open>
  def get_oracle(s):
      n = len(s)
      oracle = QuantumCircuit(n + 1)
      rev_s = s[::-1] # Reverse s to match qiskit's bit ordering
      for q in range(len(rev_s)):
          if rev_s[i] == "0":
              oracle.i(q)
          else:
              oracle.cx(q, n)
      oracle_gate = oracle.to_gate()
      return oracle_gate
  \<close>
  The loop body reads \<open>rev_s[i]\<close>, and \<open>i\<close> is neither a parameter nor a local of the
  function: Python looks it up among the notebook's globals when the line runs. The
  model takes that binding as the parameter \<open>i\<close>: \<open>None\<close> when no global \<open>i\<close> exists
  (the notebook defines none), which raises NameError in the first iteration.
\<close>

fun bv_oracle_loop :: "int option \<Rightarrow> string \<Rightarrow> nat \<Rightarrow> nat list \<Rightarrow> py_error + gate list" where
  "bv_oracle_loop i rev_s n [] = Inr []"
| "bv_oracle_loop i rev_s n (q # qs) =
     (case i of
        None \<Rightarrow> Inl NameError
      | Some iv \<Rightarrow>
          (case py_index rev_s iv of
             Inl e \<Rightarrow> Inl e
           | Inr c \<Rightarrow>
               (case bv_oracle_loop i rev_s n qs of
                  Inl e \<Rightarrow> Inl e
                | Inr gs \<Rightarrow> Inr ((if c = CHR ''0'' then Id_gate q else CX_gate q n) # gs))))"

definition bv_get_oracle :: "int option \<Rightarrow> string \<Rightarrow> py_error + gate list" where
  "bv_get_oracle i s =
     (let n = length s; rev_s = rev s
      in bv_oracle_loop i rev_s n [0..<length rev_s])"

text \<open>
  \<^verbatim>\<open>
  def bv_algorithm(oracle_gate, n):
      qc = QuantumCircuit(n+1, n)
      qc.x(n)
      qc.h(n)
      for q in range(n):
          qc.h(n)
      qc.barrier()
      qc.append(oracle_gate, range(n+1))
      qc.barrier()
      for q in range(n):
          qc.h(n)
      qc.barrier()
      qc.measure([i for i in range(n)], [i for i in range(n)])
      return qc
  \<close>
  Both loops apply the Hadamard gate to qubit \<open>n\<close>, not to the loop variable \<open>q\<close>.
\<close>

definition bv_algorithm :: "gate list \<Rightarrow> nat \<Rightarrow> circuit" where
  "bv_algorithm oracle_gate n =
     \<lparr> num_qubits = n + 1, num_clbits = n,
       ops = [X_gate n, H_gate n] @ map (\<lambda>q. H_gate n) [0..<n] @ [Barrier]
             @ oracle_gate @ [Barrier]
             @ map (\<lambda>q. H_gate n) [0..<n] @ [Barrier],
       measurements = map (\<lambda>i. (i, i)) [0..<n] \<rparr>"

section \<open>Deutsch-Jozsa notebook\<close>

text \<open>
  \<^verbatim>\<open>
  def get_oracle(oracle_type, n):
      oracle = QuantumCircuit(n + 1)
      if oracle_type == "balanced":
          b = np.random.randint(1, 2**n)
          b_str = format(b, '0'+str(n)+'b')
          for q in range(len(b_str)):
              if b_str[q] == '1':
                  oracle.x(q)
          for q in range(n):
              oracle.cx(q, n)
          for q in range(len(b_str)):
              if b_str[q] == '1':
                  oracle.x(q)
      elif oracle_type == "constant":
          rand = np.random.randint(2)
          if rand == 1:
              oracle.x(n)
      oracle_gate = oracle.to_gate()
      return oracle_gate
  \<close>
  The two random draws are the parameters \<open>b\<close> and \<open>rand\<close>. \<open>np.random.randint(1, 2**n)\<close>
  draws a 64-bit signed integer: it returns some \<open>b\<close> with \<open>1 \<le> b < 2^n\<close>, and it raises
  ValueError when that range is empty (\<open>n = 0\<close>: low is not below high) and when the
  bound \<open>2**n\<close> lies beyond \<open>2^63\<close> (\<open>n \<ge> 64\<close>: high is out of bounds for int64).
  \<open>np.random.randint(2)\<close> returns 0 or 1.
\<close>

definition x_layer :: "string \<Rightarrow> gate list" where
  "x_layer b_str = map X_gate (filter (\<lambda>q. b_str ! q = CHR ''1'') [0..<length b_str])"

definition dj_get_oracle :: "string \<Rightarrow> nat \<Rightarrow> nat \<Rightarrow> nat \<Rightarrow> py_error + gate list" where
  "dj_get_oracle oracle_type n b rand =
     (if oracle_type = ''balanced'' then
        (if (2::nat) ^ n \<le> 1 \<or> (2::nat) ^ 63 < 2 ^ n then Inl ValueError
         else
           (let b_str = format_bin n b
            in Inr (x_layer b_str @ map (\<lambda>q. CX_gate q n) [0..<n] @ x_layer b_str)))
      else if oracle_type = ''constant'' then
        Inr (if rand = 1 then [X_gate n] else [])
      else Inr [])"

text \<open>
  \<^verbatim>\<open>
  def dj_circuit(oracle_gate, n):
      circuit = QuantumCircuit(n+1, n)
      for qubit in range(n):
          circuit.h(qubit)
      circuit.x(n)
      circuit.h(n)
      circuit.append(oracle_gate, range(n+1))
      for qubit in range(n):
          circuit.h(qubit)
      for i in range(n):
          circuit.measure(i, i)
      return circuit
  \<close>
\<close>

definition dj_circuit :: "gate list \<Rightarrow> nat \<Rightarrow> circuit" where
  "dj_circuit oracle_gate n =
     \<lparr> num_qubits = n + 1, num_clbits = n,
       ops = map H_gate [0..<n] @ [X_gate n, H_gate n] @ oracle_gate @ map H_gate [0..<n],
       measurements = map (\<lambda>i. (i, i)) [0..<n] \<rparr>"

section \<open>Simon notebook\<close>

text \<open>
  \<^verbatim>\<open>
  def simon_oracle(s):
      n = len(s)
      qc = QuantumCircuit(2 * n)
      for q in range(n):
          qc.cx(q, n + q)
      for i in range(n):
          if s[i] == "1":
              qc.cx(i, n + i)
      nr_swaps = randint(0, n)
      for i in range(nr_swaps):
          x = randint(n, 2 * n - 1)
          y = randint(n, 2 * n - 1)
          if x != y:
              qc.swap(x, y)
      oracle = qc.to_gate()
      return oracle
  \<close>
  The random draws are the parameter \<open>swaps\<close>: the pairs \<open>(x, y)\<close> drawn by the last loop,
  in order; its length is the drawn \<open>nr_swaps\<close> (between 0 and \<open>n\<close>), and every drawn
  number lies between \<open>n\<close> and \<open>2 * n - 1\<close>.
\<close>

definition simon_oracle :: "string \<Rightarrow> (nat \<times> nat) list \<Rightarrow> gate list" where
  "simon_oracle s swaps =
     (let n = length s
      in map (\<lambda>q. CX_gate q (n + q)) [0..<n]
         @ map (\<lambda>i. CX_gate i (n + i)) (filter (\<lambda>i. s ! i = CHR ''1'') [0..<n])
         @ map (\<lambda>(x, y). Swap_gate x y) (filter (\<lambda>(x, y). x \<noteq> y) swaps))"

definition swaps_drawn :: "nat \<Rightarrow> (nat \<times> nat) list \<Rightarrow> bool" where
  \<comment> \<open>The draws \<open>randint\<close> can return for a string of length \<open>n\<close>.\<close>
  "swaps_drawn n swaps =
     (length swaps \<le> n \<and> list_all (\<lambda>(x, y). n \<le> x \<and> x < 2 * n \<and> n \<le> y \<and> y < 2 * n) swaps)"

text \<open>
  \<^verbatim>\<open>
  def simon_circuit(s):
      n = len(s)
      oracle = simon_oracle(s)
      qc = QuantumCircuit(2 * n, n)
      for q in range(n):
          qc.h(q)
      qc.barrier()
      qc.append(oracle, range(2 * n))
      qc.barrier()
      for q in range(n):
          qc.h(q)
      for q in range(n):
          qc.measure(q, q)
      return qc
  \<close>
\<close>

definition simon_circuit :: "string \<Rightarrow> (nat \<times> nat) list \<Rightarrow> circuit" where
  "simon_circuit s swaps =
     (let n = length s; oracle = simon_oracle s swaps
      in \<lparr> num_qubits = 2 * n, num_clbits = n,
           ops = map H_gate [0..<n] @ [Barrier] @ oracle @ [Barrier] @ map H_gate [0..<n],
           measurements = map (\<lambda>q. (q, q)) [0..<n] \<rparr>)"

text \<open>
  \<^verbatim>\<open>
  def bdotz(b, z):
      accum = 0
      for i in range(len(b)):
          accum += int(b[i]) * int(z[i])
      return (accum % 2)
  \<close>
\<close>

fun bdotz_loop :: "string \<Rightarrow> string \<Rightarrow> nat \<Rightarrow> nat list \<Rightarrow> py_error + nat" where
  "bdotz_loop b z accum [] = Inr accum"
| "bdotz_loop b z accum (i # is) =
     (case int_of_char (b ! i) of
        Inl e \<Rightarrow> Inl e
      | Inr bi \<Rightarrow>
          (if length z \<le> i then Inl IndexError
           else
             (case int_of_char (z ! i) of
                Inl e \<Rightarrow> Inl e
              | Inr zi \<Rightarrow> bdotz_loop b z (accum + bi * zi) is)))"

definition bdotz :: "string \<Rightarrow> string \<Rightarrow> py_error + nat" where
  "bdotz b z =
     (case bdotz_loop b z 0 [0..<length b] of
        Inl e \<Rightarrow> Inl e
      | Inr accum \<Rightarrow> Inr (accum mod 2))"

section \<open>State simulator\<close>

text \<open>
  The notebooks run their circuits with \<open>execute(qc, backend=backend, shots=...)\<close> on
  Qiskit's simulator, which is not part of the repository. The simulator below is the
  one the specification describes (sections 3 and 4.1): a state vector of complex
  amplitudes, one gate applied at a time, outcome probabilities as squared magnitudes.
  The amplitude array is given by its indexing function: a basis index is the list of
  its bits, bit \<open>q\<close> being the value of qubit \<open>q\<close>.
\<close>

type_synonym state = "bool list \<Rightarrow> complex"

definition ket :: "bool list \<Rightarrow> state" where
  \<comment> \<open>Modelled from the spec: the simulator's state vector is not in the repository; the
     spec has a complex amplitude for every computational basis index, and \<open>ket x\<close> is the
     basis state \<open>x\<close> (amplitude 1 at \<open>x\<close>, 0 elsewhere).\<close>
  "ket x = (\<lambda>y. if y = x then 1 else 0)"

definition toggle :: "nat \<Rightarrow> bool list \<Rightarrow> bool list" where
  \<comment> \<open>The basis index with the bit of qubit \<open>q\<close> flipped.\<close>
  "toggle q x = x[q := \<not> x ! q]"

fun gate_perm :: "gate \<Rightarrow> bool list \<Rightarrow> bool list" where
  \<comment> \<open>Modelled from the spec: the simulator's gates are not in the repository; the spec has
     X flip one index bit, CX flip the target's bit when the control's bit is 1 and swap
     exchange two qubits, each a permutation of the basis indices. H is no permutation
     and is listed with the identity.\<close>
  "gate_perm (Id_gate q) x = x"
| "gate_perm (X_gate q) x = toggle q x"
| "gate_perm (H_gate q) x = x"
| "gate_perm (CX_gate c t) x = (if x ! c then toggle t x else x)"
| "gate_perm (Swap_gate a b) x = x[a := x ! b, b := x ! a]"
| "gate_perm Barrier x = x"

fun apply_gate :: "gate \<Rightarrow> state \<Rightarrow> state" where
  \<comment> \<open>Modelled from the spec: the simulator's \<open>apply(gate, state)\<close> is not in the
     repository; the spec has H act as the 2x2 Hadamard matrix on one qubit, the other
     gates permute the amplitude array, and a barrier have no effect.\<close>
  "apply_gate (H_gate q) \<psi> =
     (\<lambda>x. (\<psi> (x[q := False]) + (if x ! q then - 1 else 1) * \<psi> (x[q := True])) / complex_of_real (sqrt 2))"
| "apply_gate g \<psi> = (\<lambda>x. \<psi> (gate_perm g x))"

definition basis_run :: "gate list \<Rightarrow> bool list \<Rightarrow> bool list" where
  \<comment> \<open>A sequence of permutation gates on a basis state, first gate first.\<close>
  "basis_run gs x = foldl (\<lambda>v g. gate_perm g v) x gs"

definition run :: "gate list \<Rightarrow> state \<Rightarrow> state" where
  \<comment> \<open>Modelled from the spec: the simulator's \<open>run\<close> is not in the repository; the spec
     applies every gate of the circuit in sequence.\<close>
  "run gs \<psi> = foldl (\<lambda>\<phi> g. apply_gate g \<phi>) \<psi> gs"

fun gate_in_bounds :: "nat \<Rightarrow> gate \<Rightarrow> bool" where
  \<comment> \<open>Modelled from the spec: the simulator's validation is not in the repository; the spec
     fails with InvalidGateError on a gate that references a qubit index outside the
     register.\<close>
  "gate_in_bounds n (Id_gate q) = (q < n)"
| "gate_in_bounds n (X_gate q) = (q < n)"
| "gate_in_bounds n (H_gate q) = (q < n)"
| "gate_in_bounds n (CX_gate c t) = (c < n \<and> t < n)"
| "gate_in_bounds n (Swap_gate a b) = (a < n \<and> b < n)"
| "gate_in_bounds n Barrier = True"

fun gate_wf :: "nat \<Rightarrow> gate \<Rightarrow> bool" where
  \<comment> \<open>A gate of the supported set on a register of \<open>n\<close> qubits: within bounds, and a
     controlled-NOT has a target other than its control.\<close>
  "gate_wf n (CX_gate c t) = (c < n \<and> t < n \<and> c \<noteq> t)"
| "gate_wf n g = gate_in_bounds n g"

definition basis_states :: "nat \<Rightarrow> bool list list" where
  \<comment> \<open>The \<open>2^n\<close> basis indices of a register of \<open>n\<close> qubits.\<close>
  "basis_states n = List.n_lists n [False, True]"

definition norm_sq :: "nat \<Rightarrow> state \<Rightarrow> real" where
  \<comment> \<open>Modelled from the spec: the state vector is not in the repository; the spec's
     invariant is on the sum of the squared magnitudes of its amplitudes.\<close>
  "norm_sq n \<psi> = (\<Sum>x\<leftarrow>basis_states n. (cmod (\<psi> x))\<^sup>2)"

definition bit_char :: "bool \<Rightarrow> char" where
  "bit_char v = (if v then CHR ''1'' else CHR ''0'')"

definition outcome_key :: "circuit \<Rightarrow> bool list \<Rightarrow> string" where
  \<comment> \<open>The key under which a shot that finds the register in basis state \<open>x\<close> is counted:
     every classical bit starts at 0, each measurement copies its qubit into its
     classical bit, and the key lists the classical bits with bit 0 last (Qiskit's
     bit ordering, the one \<open>get_oracle\<close> of the Bernstein-Vazirani notebook reverses
     \<open>s\<close> for).\<close>
  "outcome_key C x =
     rev (map bit_char
       (foldl (\<lambda>cl (q, c). cl[c := x ! q]) (replicate (num_clbits C) False) (measurements C)))"

definition final_state :: "circuit \<Rightarrow> state" where
  \<comment> \<open>Modelled from the spec: a simulation starts in the all-zero basis state.\<close>
  "final_state C = run (ops C) (ket (replicate (num_qubits C) False))"

definition outcome_prob :: "circuit \<Rightarrow> string \<Rightarrow> real" where
  \<comment> \<open>Modelled from the spec: the simulator's sampling is not in the repository; the spec
     has the probability of an outcome be the sum of the squared magnitudes of the
     amplitudes of the basis states that give it (unmeasured qubits are summed over).\<close>
  "outcome_prob C key =
     (\<Sum>x\<leftarrow>filter (\<lambda>x. outcome_key C x = key) (basis_states (num_qubits C)). (cmod (final_state C x))\<^sup>2)"

definition circuit_in_bounds :: "circuit \<Rightarrow> bool" where
  \<comment> \<open>Every gate and every measurement of the circuit lies in its registers.\<close>
  "circuit_in_bounds C =
     (list_all (gate_in_bounds (num_qubits C)) (ops C) \<and>
      list_all (\<lambda>(q, c). q < num_qubits C \<and> c < num_clbits C) (measurements C))"

definition measure_prob :: "circuit \<Rightarrow> string \<Rightarrow> py_error + real" where
  \<comment> \<open>Modelled from the spec: the simulator's \<open>simulate\<close> is not in the repository. One
     shot, given as the probability that its outcome is \<open>key\<close>; InvalidGateError when an
     operation is out of the register.\<close>
  "measure_prob C key =
     (if circuit_in_bounds C then Inr (outcome_prob C key) else Inl InvalidGateError)"

section \<open>Pipelines\<close>

definition bv_pipeline :: "int option \<Rightarrow> string \<Rightarrow> py_error + real" where
  \<comment> \<open>Build the oracle for \<open>s\<close>, wrap it in \<open>bv_algorithm\<close>, run one shot: the probability
     that the outcome is \<open>s\<close>.\<close>
  "bv_pipeline i s =
     (case bv_get_oracle i s of
        Inl e \<Rightarrow> Inl e
      | Inr oracle_gate \<Rightarrow> measure_prob (bv_algorithm oracle_gate (length s)) s)"

definition dj_pipeline :: "string \<Rightarrow> nat \<Rightarrow> nat \<Rightarrow> nat \<Rightarrow> string \<Rightarrow> py_error + real" where
  \<comment> \<open>Build an oracle, wrap it in \<open>dj_circuit\<close>, run one shot: the probability of \<open>key\<close>.\<close>
  "dj_pipeline oracle_type n b rand key =
     (case dj_get_oracle oracle_type n b rand of
        Inl e \<Rightarrow> Inl e
      | Inr oracle_gate \<Rightarrow> measure_prob (dj_circuit oracle_gate n) key)"

definition oracle_output :: "gate list \<Rightarrow> bool list \<Rightarrow> bool" where
  \<comment> \<open>The Boolean function an oracle of X, CX and swap gates computes: the value of the
     last qubit after the oracle has run on input \<open>x\<close> with the output qubit at 0.\<close>
  "oracle_output gs x = last (basis_run gs (x @ [False]))"

definition simon_f :: "string \<Rightarrow> (nat \<times> nat) list \<Rightarrow> bool list \<Rightarrow> bool list" where
  \<comment> \<open>The function of the Simon oracle: the second register after the oracle has run on
     \<open>|x>|0>\<close>.\<close>
  "simon_f s swaps x =
     drop (length s) (basis_run (simon_oracle s swaps) (x @ replicate (length s) False))"

fun popcount :: "nat \<Rightarrow> nat" where
  \<comment> \<open>The number of 1 bits of a number.\<close>
  "popcount b = (if b = 0 then 0 else b mod 2 + popcount (b div 2))"

definition parity_of :: "bool list \<Rightarrow> bool" where
  \<comment> \<open>The parity of a bit list: whether the number of its 1 bits is odd.\<close>
  "parity_of x = odd (length (filter id x))"

fun is_classical :: "gate \<Rightarrow> bool" where
  \<comment> \<open>The gates that permute the basis states.\<close>
  "is_classical (H_gate q) = False"
| "is_classical g = True"

definition bmask :: "string \<Rightarrow> bool list" where
  \<comment> \<open>The bits of a string of 0 and 1 characters.\<close>
  "bmask b_str = map (\<lambda>c. c = CHR ''1'') b_str"

definition xor_bits :: "bool list \<Rightarrow> bool list \<Rightarrow> bool list" where
  \<comment> \<open>Bitwise exclusive or.\<close>
  "xor_bits x m = map2 (\<lambda>a b. a \<noteq> b) x m"

definition balanced_gates :: "nat \<Rightarrow> nat \<Rightarrow> gate list" where
  \<comment> \<open>The gates the balanced branch of \<open>dj_get_oracle\<close> emits for the draw \<open>b\<close>.\<close>
  "balanced_gates n b =
     x_layer (format_bin n b) @ map (\<lambda>q. CX_gate q n) [0..<n] @ x_layer (format_bin n b)"

definition constant_gates :: "nat \<Rightarrow> nat \<Rightarrow> gate list" where
  \<comment> \<open>The gates the constant branch of \<open>dj_get_oracle\<close> emits for the draw \<open>rand\<close>.\<close>
  "constant_gates n rand = (if rand = 1 then [X_gate n] else [])"

definition hsign :: "bool list \<Rightarrow> bool list \<Rightarrow> complex" where
  \<comment> \<open>The sign \<open>(-1)^(u.w)\<close> of the Hadamard transform.\<close>
  "hsign u w = (if parity_of (map2 (\<lambda>a b. a \<and> b) u w) then - 1 else 1)"

abbreviation rt2 :: complex where
  "rt2 \<equiv> complex_of_real (sqrt 2)"

definition minus_state :: "nat \<Rightarrow> state" where
  \<comment> \<open>The state \<open>dj_circuit\<close> hands to the oracle: Hadamard on every input qubit, X then
     Hadamard on the output qubit.\<close>
  "minus_state n = run (map H_gate [0..<n] @ [X_gate n, H_gate n]) (ket (replicate (Suc n) False))"

definition inputs_zero :: "nat \<Rightarrow> state \<Rightarrow> bool" where
  \<comment> \<open>The state has no amplitude outside the basis states whose \<open>n\<close> input qubits are 0.\<close>
  "inputs_zero n \<psi> = (\<forall>x. length x = Suc n \<longrightarrow> take n x \<noteq> replicate n False \<longrightarrow> \<psi> x = 0)"

fun bv_oracle_gate :: "nat \<Rightarrow> gate \<Rightarrow> bool" where
  \<comment> \<open>The gates the loop of \<open>bv_get_oracle\<close> can emit: \<open>oracle.i(q)\<close> and \<open>oracle.cx(q, n)\<close>.\<close>
  "bv_oracle_gate n (Id_gate q) = (q < n)"
| "bv_oracle_gate n (CX_gate q t) = (q < n \<and> t = n)"
| "bv_oracle_gate n g = False"

fun ancilla_gate :: "nat \<Rightarrow> gate \<Rightarrow> bool" where
  \<comment> \<open>The operations of \<open>bv_algorithm\<close>: they act on qubit \<open>n\<close>, input qubits only control.\<close>
  "ancilla_gate n (X_gate q) = (q = n)"
| "ancilla_gate n (H_gate q) = (q = n)"
| "ancilla_gate n Barrier = True"
| "ancilla_gate n g = bv_oracle_gate n g"

definition swap_out :: "nat \<Rightarrow> (nat \<times> nat) list \<Rightarrow> bool list \<Rightarrow> bool list" where
  \<comment> \<open>What a list of swaps among the qubits \<open>n .. 2n-1\<close> does to the second register.\<close>
  "swap_out n sw v = foldl (\<lambda>v (a, b). v[a - n := v ! (b - n), b - n := v ! (a - n)]) v sw"

definition in_second :: "nat \<Rightarrow> nat \<times> nat \<Rightarrow> bool" where
  \<comment> \<open>Both qubits of a drawn swap lie in the second register.\<close>
  "in_second n p = (case p of (a, b) \<Rightarrow> n \<le> a \<and> a < 2 * n \<and> n \<le> b \<and> b < 2 * n)"

declare bin_digits.simps [simp del]
declare popcount.simps [simp del]

section \<open>The Bernstein-Vazirani oracle builder\<close>

lemma bv_loop_some:
  "bv_oracle_loop (Some iv) rev_s n qs =
     (case py_index rev_s iv of
        Inl e \<Rightarrow> (if qs = [] then Inr [] else Inl e)
      | Inr c \<Rightarrow> Inr (map (\<lambda>q. if c = CHR ''0'' then Id_gate q else CX_gate q n) qs))"
  by (induction qs) (auto split: sum.splits)

lemma bv_loop_uniform:
  "bv_oracle_loop i rev_s n qs = Inr gs \<Longrightarrow>
     gs = map Id_gate qs \<or> gs = map (\<lambda>q. CX_gate q n) qs"
proof (cases i)
  case None
  assume "bv_oracle_loop i rev_s n qs = Inr gs"
  with None show ?thesis by (cases qs) auto
next
  case (Some iv)
  assume "bv_oracle_loop i rev_s n qs = Inr gs"
  with Some show ?thesis
    by (auto simp: bv_loop_some split: sum.splits if_splits)
qed

lemma bv_get_oracle_uniform:
  "bv_get_oracle i s = Inr gs \<Longrightarrow>
     gs = map Id_gate [0..<length s] \<or> gs = map (\<lambda>q. CX_gate q (length s)) [0..<length s]"
  unfolding bv_get_oracle_def Let_def using bv_loop_uniform[of i "rev s" "length s" "[0..<length (rev s)]" gs]
  by simp

lemma bv_get_oracle_unbound:
  "s \<noteq> [] \<Longrightarrow> bv_get_oracle None s = Inl NameError"
  unfolding bv_get_oracle_def Let_def by (cases s rule: rev_cases) (simp_all add: upt_rec)

section \<open>Permutation gates on basis states\<close>

lemma length_toggle [simp]: "length (toggle q x) = length x"
  by (simp add: toggle_def)

lemma toggle_toggle [simp]: "toggle q (toggle q x) = x"
  by (cases "q < length x") (simp_all add: toggle_def list_update_beyond)

lemma nth_toggle: "i < length x \<Longrightarrow> toggle q x ! i = (if i = q then \<not> x ! i else x ! i)"
  by (simp add: toggle_def nth_list_update)

lemma toggle_append_last [simp]: "toggle (length x) (x @ [y]) = x @ [\<not> y]"
  by (simp add: toggle_def)

lemma length_gate_perm [simp]: "length (gate_perm g x) = length x"
  by (cases g) simp_all

lemma basis_run_Nil [simp]: "basis_run [] x = x"
  by (simp add: basis_run_def)

lemma basis_run_Cons [simp]: "basis_run (g # gs) x = basis_run gs (gate_perm g x)"
  by (simp add: basis_run_def)

lemma basis_run_append [simp]: "basis_run (gs @ hs) x = basis_run hs (basis_run gs x)"
  by (simp add: basis_run_def)

lemma length_basis_run [simp]: "length (basis_run gs x) = length x"
  by (induction gs arbitrary: x) simp_all

lemma basis_run_x_gates:
  "distinct qs \<Longrightarrow> \<forall>q\<in>set qs. q < length z \<Longrightarrow>
     basis_run (map X_gate qs) z = map (\<lambda>i. z ! i \<noteq> (i \<in> set qs)) [0..<length z]"
proof (induction qs arbitrary: z)
  case Nil
  then show ?case by (simp add: map_nth)
next
  case (Cons q qs)
  have "basis_run (map X_gate (q # qs)) z = basis_run (map X_gate qs) (toggle q z)"
    by simp
  also have "\<dots> = map (\<lambda>i. toggle q z ! i \<noteq> (i \<in> set qs)) [0..<length z]"
    using Cons.IH[of "toggle q z"] Cons.prems by simp
  also have "\<dots> = map (\<lambda>i. z ! i \<noteq> (i \<in> set (q # qs))) [0..<length z]"
    using Cons.prems by (auto simp: nth_toggle)
  finally show ?case .
qed

lemma basis_run_x_layer:
  assumes "length x = length b_str"
  shows "basis_run (x_layer b_str) (x @ [y]) = xor_bits x (bmask b_str) @ [y]"
proof -
  let ?qs = "filter (\<lambda>q. b_str ! q = CHR ''1'') [0..<length b_str]"
  have "basis_run (map X_gate ?qs) (x @ [y])
        = map (\<lambda>i. (x @ [y]) ! i \<noteq> (i \<in> set ?qs)) [0..<length (x @ [y])]"
    by (rule basis_run_x_gates) (use assms in auto)
  also have "\<dots> = xor_bits x (bmask b_str) @ [y]"
    using assms by (auto intro!: nth_equalityI simp: xor_bits_def bmask_def nth_append less_Suc_eq)
  finally show ?thesis by (simp add: x_layer_def)
qed

lemma basis_run_cx_gates:
  "length x = n \<Longrightarrow> \<forall>q\<in>set qs. q < n \<Longrightarrow>
     basis_run (map (\<lambda>q. CX_gate q n) qs) (x @ [y])
       = x @ [y \<noteq> odd (length (filter (\<lambda>q. x ! q) qs))]"
proof (induction qs arbitrary: y)
  case Nil
  then show ?case by simp
next
  case (Cons q qs)
  then show ?case by (auto simp: nth_append)
qed

lemma count_true_nth: "length (filter (\<lambda>q. x ! q) [0..<length x]) = length (filter id x)"
proof -
  have "length (filter id x) = length (filter id (map ((!) x) [0..<length x]))"
    by (simp add: map_nth)
  also have "\<dots> = length (filter (\<lambda>q. x ! q) [0..<length x])"
    by (simp add: filter_map o_def)
  finally show ?thesis by simp
qed

lemma basis_run_cx_layer:
  "length x = n \<Longrightarrow>
     basis_run (map (\<lambda>q. CX_gate q n) [0..<n]) (x @ [y]) = x @ [y \<noteq> parity_of x]"
  using basis_run_cx_gates[of x n "[0..<n]" y] by (auto simp: parity_of_def count_true_nth)

lemma basis_run_cx_layer_rev:
  "length x = n \<Longrightarrow>
     basis_run (map (\<lambda>q. CX_gate q n) (rev [0..<n])) (x @ [y]) = x @ [y \<noteq> parity_of x]"
  using basis_run_cx_gates[of x n "rev [0..<n]" y] count_true_nth[of x]
  by (auto simp: parity_of_def simp flip: rev_filter)

lemma length_xor_bits [simp]: "length (xor_bits x m) = min (length x) (length m)"
  by (simp add: xor_bits_def)

lemma length_bmask [simp]: "length (bmask s) = length s"
  by (simp add: bmask_def)

lemma xor_bits_twice: "length x = length m \<Longrightarrow> xor_bits (xor_bits x m) m = x"
  by (induction x m rule: list_induct2) (auto simp: xor_bits_def)

lemma parity_xor_bits:
  "length x = length m \<Longrightarrow> parity_of (xor_bits x m) = (parity_of x \<noteq> parity_of m)"
  by (induction x m rule: list_induct2) (auto simp: xor_bits_def parity_of_def)

lemma count_ones_bin_digits: "length (filter id (bmask (bin_digits b))) = popcount b"
proof (induction b rule: bin_digits.induct)
  case (1 b)
  show ?case
  proof (cases "b < 2")
    case True
    then have "b = 0 \<or> b = 1" by auto
    then show ?thesis
      by (auto simp: bin_digits.simps[of b] popcount.simps[of b] popcount.simps[of 0] bmask_def)
  next
    case False
    with 1 show ?thesis
      by (auto simp: bin_digits.simps[of b] popcount.simps[of b] bmask_def)
  qed
qed

lemma parity_format_bin: "parity_of (bmask (format_bin n b)) = odd (popcount b)"
proof -
  have "filter id (bmask (format_bin n b)) = filter id (bmask (bin_digits b))"
    by (simp add: format_bin_def bmask_def)
  then show ?thesis by (simp add: parity_of_def count_ones_bin_digits)
qed

lemma length_bin_digits: "1 \<le> n \<Longrightarrow> b < 2 ^ n \<Longrightarrow> length (bin_digits b) \<le> n"
proof (induction b arbitrary: n rule: bin_digits.induct)
  case (1 b)
  show ?case
  proof (cases "b < 2")
    case True
    with 1 show ?thesis by (simp add: bin_digits.simps[of b])
  next
    case False
    then obtain m where n: "n = Suc m" using "1.prems" by (cases n) auto
    have "m \<ge> 1" using False "1.prems" n by (cases m) auto
    moreover have "b div 2 < 2 ^ m" using "1.prems" n by auto
    ultimately have "length (bin_digits (b div 2)) \<le> m" using "1.IH" False by simp
    then show ?thesis using False n by (simp add: bin_digits.simps[of b])
  qed
qed

lemma length_format_bin: "1 \<le> n \<Longrightarrow> b < 2 ^ n \<Longrightarrow> length (format_bin n b) = n"
  using length_bin_digits[of n b] by (simp add: format_bin_def)

section \<open>The Deutsch-Jozsa oracle builder\<close>

lemma basis_run_x_layer_rev:
  assumes "length x = length b_str"
  shows "basis_run (rev (x_layer b_str)) (x @ [y]) = xor_bits x (bmask b_str) @ [y]"
proof -
  let ?qs = "filter (\<lambda>q. b_str ! q = CHR ''1'') [0..<length b_str]"
  have "basis_run (map X_gate (rev ?qs)) (x @ [y])
        = map (\<lambda>i. (x @ [y]) ! i \<noteq> (i \<in> set (rev ?qs))) [0..<length (x @ [y])]"
    by (rule basis_run_x_gates) (use assms in auto)
  also have "\<dots> = xor_bits x (bmask b_str) @ [y]"
    using assms by (auto intro!: nth_equalityI simp: xor_bits_def bmask_def nth_append less_Suc_eq)
  finally show ?thesis by (simp add: x_layer_def rev_map)
qed


lemma dj_get_oracle_balanced:
  "1 \<le> n \<Longrightarrow> n \<le> 63 \<Longrightarrow> dj_get_oracle ''balanced'' n b rand = Inr (balanced_gates n b)"
proof -
  assume n: "1 \<le> n" "n \<le> 63"
  then have "(1::nat) < 2 ^ n"
    by (intro one_less_power) simp_all
  then have low: "\<not> (2::nat) ^ n \<le> 1"
    by simp
  have "(2::nat) ^ n \<le> 2 ^ 63"
    using n(2) by (intro power_increasing) simp_all
  then have high: "\<not> (2::nat) ^ 63 < 2 ^ n"
    by (simp only: not_less)
  show ?thesis
    unfolding dj_get_oracle_def balanced_gates_def Let_def using low high by simp
qed

text \<open>
  Outside \<open>1 \<le> n \<le> 63\<close> the balanced branch builds nothing: the draw of \<open>b\<close> raises.
\<close>

lemma dj_get_oracle_balanced_raises:
  "n = 0 \<or> 64 \<le> n \<Longrightarrow> dj_get_oracle ''balanced'' n b rand = Inl ValueError"
proof -
  assume "n = 0 \<or> 64 \<le> n"
  then have "(2::nat) ^ n \<le> 1 \<or> (2::nat) ^ 63 < 2 ^ n"
  proof
    assume "n = 0"
    then show ?thesis by simp
  next
    assume "64 \<le> n"
    then have "(2::nat) ^ 63 < 2 ^ n"
      by (intro power_strict_increasing) simp_all
    then show ?thesis by (rule disjI2)
  qed
  then show ?thesis
    unfolding dj_get_oracle_def by (simp only: if_True refl)
qed

lemma basis_run_balanced:
  assumes "1 \<le> n" "b < 2 ^ n" "length x = n"
  shows "basis_run (balanced_gates n b) (x @ [y]) = x @ [(y \<noteq> parity_of x) \<noteq> odd (popcount b)]"
    and "basis_run (rev (balanced_gates n b)) (x @ [y]) = x @ [(y \<noteq> parity_of x) \<noteq> odd (popcount b)]"
proof -
  let ?s = "format_bin n b"
  have len: "length ?s = n" using assms by (simp add: length_format_bin)
  have lx: "length x = length ?s" "length (xor_bits x (bmask ?s)) = n"
    using len assms by simp_all
  have par: "parity_of (xor_bits x (bmask ?s)) = (parity_of x \<noteq> odd (popcount b))"
    using lx by (simp add: parity_xor_bits parity_format_bin)
  show "basis_run (balanced_gates n b) (x @ [y]) = x @ [(y \<noteq> parity_of x) \<noteq> odd (popcount b)]"
    using lx par len
    by (auto simp: balanced_gates_def basis_run_x_layer basis_run_cx_layer xor_bits_twice)
  show "basis_run (rev (balanced_gates n b)) (x @ [y]) = x @ [(y \<noteq> parity_of x) \<noteq> odd (popcount b)]"
    using lx par len
    by (auto simp: balanced_gates_def basis_run_x_layer_rev basis_run_cx_layer_rev rev_map xor_bits_twice)
qed

lemma parity_of_Cons [simp]: "parity_of (a # x) = (a \<noteq> parity_of x)"
  by (simp add: parity_of_def)

lemma parity_of_Nil [simp]: "\<not> parity_of []"
  by (simp add: parity_of_def)

lemma count_parity_pairs:
  "length (filter (\<lambda>x. parity_of x = p) (concat (map (\<lambda>ys. map (\<lambda>y. y # ys) [False, True]) L))) = length L"
  by (induction L) auto

lemma count_parity:
  "1 \<le> n \<Longrightarrow> length (filter (\<lambda>x. parity_of x = p) (basis_states n)) = 2 ^ (n - 1)"
proof -
  assume "1 \<le> n"
  then obtain m where n: "n = Suc m" by (cases n) auto
  show ?thesis
    unfolding n basis_states_def List.n_lists.simps count_parity_pairs
    by (simp add: length_n_lists numeral_2_eq_2)
qed

lemma oracle_output_balanced:
  assumes "1 \<le> n" "b < 2 ^ n" "length x = n"
  shows "oracle_output (balanced_gates n b) x = (parity_of x \<noteq> odd (popcount b))"
  using basis_run_balanced(1)[OF assms, of False] by (simp add: oracle_output_def)

lemma set_basis_states: "set (basis_states n) = {x. length x = n}"
  by (auto simp: basis_states_def set_n_lists)

lemma distinct_basis_states: "distinct (basis_states n)"
  by (simp add: basis_states_def distinct_n_lists)

text \<open>
  C4: for every \<open>n \<ge> 1\<close> and every instance the balanced branch produces, the function
  the built oracle computes on the output qubit is 1 on exactly \<open>2^(n-1)\<close> of the \<open>2^n\<close>
  basis inputs and 0 on the other \<open>2^(n-1)\<close>. The branch produces an instance exactly
  for \<open>1 \<le> n \<le> 63\<close>, one for every draw \<open>1 \<le> b < 2^n\<close>.
\<close>

theorem dj_balanced_exactly_half:
  assumes "1 \<le> n" "n \<le> 63" "1 \<le> b" "b < 2 ^ n"
  shows "\<exists>gs. dj_get_oracle ''balanced'' n b rand = Inr gs
           \<and> length (filter (oracle_output gs) (basis_states n)) = 2 ^ (n - 1)
           \<and> length (filter (\<lambda>x. \<not> oracle_output gs x) (basis_states n)) = 2 ^ (n - 1)"
proof -
  let ?gs = "balanced_gates n b"
  have eq: "filter (oracle_output ?gs) (basis_states n)
          = filter (\<lambda>x. parity_of x = (\<not> odd (popcount b))) (basis_states n)"
    by (rule filter_cong) (use assms oracle_output_balanced set_basis_states in auto)
  have eq': "filter (\<lambda>x. \<not> oracle_output ?gs x) (basis_states n)
          = filter (\<lambda>x. parity_of x = odd (popcount b)) (basis_states n)"
    by (rule filter_cong) (use assms oracle_output_balanced set_basis_states in auto)
  show ?thesis
    using assms dj_get_oracle_balanced[of n b rand] count_parity[of n] unfolding eq eq'
    by (intro exI[of _ ?gs]) (simp add: eq eq')
qed

theorem dj_balanced_exactly_half_witness:
  "\<exists>gs. dj_get_oracle ''balanced'' 3 5 0 = Inr gs
           \<and> length (filter (oracle_output gs) (basis_states 3)) = 4
           \<and> length (filter (\<lambda>x. \<not> oracle_output gs x) (basis_states 3)) = 4"
  using dj_balanced_exactly_half[of 3 5 0] by simp

section \<open>Permutation gates on state vectors\<close>

lemma run_Nil [simp]: "run [] \<psi> = \<psi>"
  by (simp add: run_def)

lemma run_Cons [simp]: "run (g # gs) \<psi> = run gs (apply_gate g \<psi>)"
  by (simp add: run_def)

lemma run_append [simp]: "run (gs @ hs) \<psi> = run hs (run gs \<psi>)"
  by (simp add: run_def)

lemma apply_gate_classical:
  "is_classical g \<Longrightarrow> apply_gate g \<psi> = (\<lambda>x. \<psi> (gate_perm g x))"
  by (cases g) simp_all

lemma run_classical:
  "list_all is_classical gs \<Longrightarrow> run gs \<psi> z = \<psi> (basis_run (rev gs) z)"
  by (induction gs arbitrary: \<psi>) (simp_all add: apply_gate_classical)

lemma gate_perm_involution:
  "gate_wf n g \<Longrightarrow> length z = n \<Longrightarrow> gate_perm g (gate_perm g z) = z"
proof (cases g)
  case (CX_gate c t)
  assume "gate_wf n g" "length z = n"
  with CX_gate show ?thesis by (auto simp: nth_toggle)
next
  case (Swap_gate a b)
  assume "gate_wf n g" "length z = n"
  with Swap_gate show ?thesis
    by (auto simp: list_eq_iff_nth_eq nth_list_update)
qed simp_all

lemma basis_run_rev_cancel:
  "list_all (gate_wf n) gs \<Longrightarrow> length z = n \<Longrightarrow> basis_run (rev gs) (basis_run gs z) = z"
proof (induction gs arbitrary: z)
  case Nil
  then show ?case by simp
next
  case (Cons g gs)
  then show ?case by (simp add: gate_perm_involution[of n])
qed

lemma basis_run_rev_eq_iff:
  assumes "list_all (gate_wf n) gs" "length z = n" "length v = n"
  shows "basis_run (rev gs) z = v \<longleftrightarrow> z = basis_run gs v"
proof
  assume "basis_run (rev gs) z = v"
  then have "basis_run gs v = basis_run (rev (rev gs)) (basis_run (rev gs) z)" by simp
  also have "\<dots> = z"
    using assms by (intro basis_run_rev_cancel[of n]) simp_all
  finally show "z = basis_run gs v" by simp
next
  assume "z = basis_run gs v"
  then show "basis_run (rev gs) z = v"
    using assms basis_run_rev_cancel[of n gs v] by simp
qed

lemma run_ket:
  assumes "list_all is_classical gs" "list_all (gate_wf n) gs" "length v = n"
  shows "run gs (ket v) = ket (basis_run gs v)"
proof
  fix z
  show "run gs (ket v) z = ket (basis_run gs v) z"
  proof (cases "length z = n")
    case True
    then show ?thesis
      using assms basis_run_rev_eq_iff[of n gs z v]
      by (auto simp: run_classical ket_def)
  next
    case False
    then have "basis_run (rev gs) z \<noteq> v" "z \<noteq> basis_run gs v"
      using assms(3) length_basis_run by metis+
    then show ?thesis
      using assms by (simp add: run_classical ket_def)
  qed
qed

lemma x_layer_props:
  "length b_str \<le> m \<Longrightarrow> list_all (gate_wf m) (x_layer b_str)"
  "list_all is_classical (x_layer b_str)"
  by (auto simp: x_layer_def list_all_iff)

lemma balanced_gates_props:
  assumes "1 \<le> n" "b < 2 ^ n"
  shows "list_all (gate_wf (Suc n)) (balanced_gates n b)"
    and "list_all is_classical (balanced_gates n b)"
  using assms x_layer_props(1)[of "format_bin n b" "Suc n"] length_format_bin[of n b]
  by (auto simp: balanced_gates_def list_all_iff x_layer_def)

text \<open>
  C10: for every \<open>n \<ge> 1\<close> for which the balanced branch draws at all (\<open>n \<le> 63\<close>) and
  every draw \<open>b\<close> it can make (\<open>1 \<le> b < 2^n\<close>), the built oracle maps the basis state \<open>|x>|y>\<close> to \<open>|x>|y XOR parity(x) XOR parity(b)>\<close>:
  the input qubits are unchanged and the output qubit receives the parity of the whole
  input, complemented when \<open>b\<close> has an odd number of 1 bits.
\<close>

theorem dj_balanced_oracle_parity:
  assumes "1 \<le> n" "n \<le> 63" "1 \<le> b" "b < 2 ^ n" "length x = n"
  shows "\<exists>gs. dj_get_oracle ''balanced'' n b rand = Inr gs
           \<and> run gs (ket (x @ [y])) = ket (x @ [(y \<noteq> parity_of x) \<noteq> odd (popcount b)])"
proof -
  have "run (balanced_gates n b) (ket (x @ [y])) = ket (basis_run (balanced_gates n b) (x @ [y]))"
    using assms balanced_gates_props[of n b] by (intro run_ket[of _ "Suc n"]) simp_all
  then show ?thesis
    using assms by (simp add: dj_get_oracle_balanced basis_run_balanced(1))
qed

theorem dj_balanced_oracle_parity_witness:
  "\<exists>gs. dj_get_oracle ''balanced'' 3 5 0 = Inr gs
           \<and> run gs (ket ([True, False, False] @ [False])) = ket ([True, False, False] @ [True])"
  using dj_balanced_oracle_parity[of 3 5 "[True, False, False]" 0 False]
  by (simp add: popcount.simps)

section \<open>The function of the Simon oracle\<close>

lemma toggle_append_right: "length x = n \<Longrightarrow> toggle (n + q) (x @ y) = x @ toggle q y"
  by (simp add: toggle_def list_update_append nth_append)

lemma basis_run_cx_pairs:
  "distinct qs \<Longrightarrow> \<forall>q\<in>set qs. q < n \<Longrightarrow> length x = n \<Longrightarrow> length y = n \<Longrightarrow>
     basis_run (map (\<lambda>q. CX_gate q (n + q)) qs) (x @ y)
       = x @ map (\<lambda>i. y ! i \<noteq> (i \<in> set qs \<and> x ! i)) [0..<n]"
proof (induction qs arbitrary: y)
  case Nil
  then show ?case using map_nth[of y] by simp
next
  case (Cons q qs)
  show ?case
  proof (cases "x ! q")
    case True
    have "basis_run (map (\<lambda>q. CX_gate q (n + q)) (q # qs)) (x @ y)
          = basis_run (map (\<lambda>q. CX_gate q (n + q)) qs) (x @ toggle q y)"
      using True Cons.prems by (simp add: nth_append toggle_append_right)
    also have "\<dots> = x @ map (\<lambda>i. toggle q y ! i \<noteq> (i \<in> set qs \<and> x ! i)) [0..<n]"
      using Cons.prems by (intro Cons.IH) simp_all
    also have "map (\<lambda>i. toggle q y ! i \<noteq> (i \<in> set qs \<and> x ! i)) [0..<n]
               = map (\<lambda>i. y ! i \<noteq> (i \<in> set (q # qs) \<and> x ! i)) [0..<n]"
      using True Cons.prems by (auto simp: nth_toggle)
    finally show ?thesis .
  next
    case False
    have "basis_run (map (\<lambda>q. CX_gate q (n + q)) (q # qs)) (x @ y)
          = basis_run (map (\<lambda>q. CX_gate q (n + q)) qs) (x @ y)"
      using False Cons.prems by (simp add: nth_append)
    also have "\<dots> = x @ map (\<lambda>i. y ! i \<noteq> (i \<in> set qs \<and> x ! i)) [0..<n]"
      using Cons.prems by (intro Cons.IH) simp_all
    also have "map (\<lambda>i. y ! i \<noteq> (i \<in> set qs \<and> x ! i)) [0..<n]
               = map (\<lambda>i. y ! i \<noteq> (i \<in> set (q # qs) \<and> x ! i)) [0..<n]"
      using False by auto
    finally show ?thesis .
  qed
qed

text \<open>
  With no swap drawn, the Simon oracle leaves in the second register the bits of \<open>x\<close> at
  the positions where \<open>s\<close> has no 1: the second loop undoes the copy everywhere else.
\<close>

lemma simon_f_no_swaps:
  assumes "length x = length s"
  shows "simon_f s [] x = map (\<lambda>i. x ! i \<and> s ! i \<noteq> CHR ''1'') [0..<length s]"
proof -
  let ?n = "length s"
  let ?ones = "filter (\<lambda>i. s ! i = CHR ''1'') [0..<?n]"
  let ?copy = "map (\<lambda>q. CX_gate q (?n + q)) [0..<?n]"
  let ?cancel = "map (\<lambda>i. CX_gate i (?n + i)) ?ones"
  have "basis_run ?copy (x @ replicate ?n False)
        = x @ map (\<lambda>i. replicate ?n False ! i \<noteq> (i \<in> set [0..<?n] \<and> x ! i)) [0..<?n]"
    by (rule basis_run_cx_pairs) (use assms in auto)
  also have "map (\<lambda>i. replicate ?n False ! i \<noteq> (i \<in> set [0..<?n] \<and> x ! i)) [0..<?n] = x"
    using assms by (auto intro!: nth_equalityI)
  finally have copy: "basis_run ?copy (x @ replicate ?n False) = x @ x" .
  have "basis_run ?cancel (x @ x) = x @ map (\<lambda>i. x ! i \<noteq> (i \<in> set ?ones \<and> x ! i)) [0..<?n]"
    by (rule basis_run_cx_pairs) (use assms in auto)
  also have "map (\<lambda>i. x ! i \<noteq> (i \<in> set ?ones \<and> x ! i)) [0..<?n]
             = map (\<lambda>i. x ! i \<and> s ! i \<noteq> CHR ''1'') [0..<?n]"
    by (rule map_cong) auto
  finally have cancel: "basis_run ?cancel (x @ x)
                        = x @ map (\<lambda>i. x ! i \<and> s ! i \<noteq> CHR ''1'') [0..<?n]" .
  have "simon_oracle s [] = ?copy @ ?cancel"
    unfolding simon_oracle_def Let_def by simp
  then have "simon_f s [] x = drop ?n (basis_run ?cancel (basis_run ?copy (x @ replicate ?n False)))"
    unfolding simon_f_def by (simp only: basis_run_append)
  then show ?thesis
    unfolding copy cancel using assms by simp
qed

section \<open>Oracle builders against their contracts\<close>

text \<open>
  C3: the Bernstein-Vazirani oracle builder returns, for every bit-string \<open>s\<close>, gates
  that place a CX from input qubit \<open>i\<close> to the output qubit exactly where \<open>s\<close> has a
  1 (identity elsewhere), so that the output qubit receives \<open>s.x mod 2\<close>. The code does
  not: for \<open>s = 101\<close> it raises NameError in the notebook as written (no global \<open>i\<close>),
  and under every binding of the global \<open>i\<close> it either raises or emits the same gate on
  every qubit, never CX on qubits 0 and 2 with identity on qubit 1; no result
  computes \<open>s.x\<close> on the inputs 100 and 010.
\<close>

theorem bv_get_oracle_misses_contract:
  "bv_get_oracle None ''101'' = Inl NameError
   \<and> (\<forall>i. bv_get_oracle i ''101'' \<noteq> Inr [CX_gate 0 3, Id_gate 1, CX_gate 2 3])
   \<and> (\<forall>i gs. \<not> (bv_get_oracle i ''101'' = Inr gs
          \<and> oracle_output gs [True, False, False] = True
          \<and> oracle_output gs [False, True, False] = False))"
proof -
  have len: "length ''101'' = 3" by simp
  have uni: "gs = map Id_gate [0..<3] \<or> gs = map (\<lambda>q. CX_gate q 3) [0..<3]"
    if "bv_get_oracle i ''101'' = Inr gs" for i gs
    using bv_get_oracle_uniform[OF that] unfolding len .
  have ne: "[CX_gate 0 3, Id_gate 1, CX_gate 2 3] \<noteq> map Id_gate [0..<3]"
    "[CX_gate 0 3, Id_gate 1, CX_gate 2 3] \<noteq> map (\<lambda>q. CX_gate q 3) [0..<3]"
    by code_simp+
  have a: "bv_get_oracle i ''101'' \<noteq> Inr [CX_gate 0 3, Id_gate 1, CX_gate 2 3]" for i
    using uni[of i "[CX_gate 0 3, Id_gate 1, CX_gate 2 3]"] ne by blast
  have id: "\<not> oracle_output (map Id_gate [0..<3]) [True, False, False]"
    by code_simp
  have cx: "oracle_output (map (\<lambda>q. CX_gate q 3) [0..<3]) [False, True, False]"
    by code_simp
  have b: "\<not> (bv_get_oracle i ''101'' = Inr gs
          \<and> oracle_output gs [True, False, False] = True
          \<and> oracle_output gs [False, True, False] = False)" for i gs
    using uni[of i gs] id cx by blast
  have c: "bv_get_oracle None ''101'' = Inl NameError"
    by (rule bv_get_oracle_unbound) simp
  show ?thesis using a b c by blast
qed

text \<open>
  C2: the Simon oracle maps \<open>|x>|0>\<close> to \<open>|x>|f(x)>\<close> with \<open>f\<close> exactly two-to-one of
  period \<open>s\<close>: \<open>f(x) = f(y)\<close> only for \<open>y = x\<close> or \<open>y = x XOR s\<close>. The code does not: the
  second loop repeats \<open>cx(i, n + i)\<close> of the first, which undoes the copy wherever \<open>s\<close>
  has a 1. For \<open>s = 11\<close> the inputs 00 and 10 collide although 10 is neither 00 nor
  \<open>00 XOR 11\<close>, whether or not the drawn swap is applied.
\<close>

theorem simon_oracle_not_two_to_one:
  "simon_f ''11'' [] [False, False] = simon_f ''11'' [] [True, False]
   \<and> simon_f ''11'' [(2, 3)] [False, False] = simon_f ''11'' [(2, 3)] [True, False]
   \<and> swaps_drawn 2 [] \<and> swaps_drawn 2 [(2, 3)]
   \<and> [True, False] \<noteq> [False, False]
   \<and> [True, False] \<noteq> xor_bits [False, False] (bmask ''11'')"
  by code_simp

section \<open>Normalization\<close>

lemma finite_bvecs [simp]: "finite {x::bool list. length x = n}"
  using finite_set[of "basis_states n"] by (simp only: set_basis_states)

lemma sum_list_basis_states:
  "(\<Sum>x\<leftarrow>basis_states n. f x) = (\<Sum>x | length x = n. f x)"
  by (simp add: sum_list_distinct_conv_sum_set distinct_basis_states set_basis_states)

lemma norm_sq_sum: "norm_sq n \<psi> = (\<Sum>x | length x = n. (cmod (\<psi> x))\<^sup>2)"
  by (simp add: norm_sq_def sum_list_basis_states)

lemma norm_sq_ket: "length x = n \<Longrightarrow> norm_sq n (ket x) = 1"
proof -
  assume len: "length x = n"
  have "(cmod (ket x y))\<^sup>2 = (if y = x then 1 else 0)" for y
    by (simp add: ket_def)
  then have "norm_sq n (ket x) = (\<Sum>y | length y = n. if y = x then 1 else 0)"
    by (simp add: norm_sq_sum)
  also have "\<dots> = 1"
    using len by (simp add: sum.delta)
  finally show ?thesis .
qed

lemma gate_perm_bij:
  assumes "gate_wf n g"
  shows "bij_betw (gate_perm g) {x. length x = n} {x. length x = n}"
  by (rule bij_betw_byWitness[where f' = "gate_perm g"])
     (use assms gate_perm_involution[of n g] in auto)

lemma norm_sq_classical:
  assumes "gate_wf n g" "is_classical g"
  shows "norm_sq n (apply_gate g \<psi>) = norm_sq n \<psi>"
proof -
  have "norm_sq n (apply_gate g \<psi>) = (\<Sum>x | length x = n. (cmod (\<psi> (gate_perm g x)))\<^sup>2)"
    using assms by (simp add: norm_sq_sum apply_gate_classical)
  also have "\<dots> = (\<Sum>x | length x = n. (cmod (\<psi> x))\<^sup>2)"
    by (rule sum.reindex_bij_betw[OF gate_perm_bij[OF assms(1)]])
  finally show ?thesis by (simp add: norm_sq_sum)
qed

lemma hadamard_pair:
  fixes a b :: complex
  shows "(cmod ((a + b) / complex_of_real (sqrt 2)))\<^sup>2 + (cmod ((a - b) / complex_of_real (sqrt 2)))\<^sup>2
         = (cmod a)\<^sup>2 + (cmod b)\<^sup>2"
proof -
  have e1: "(cmod ((a + b) / complex_of_real (sqrt 2)))\<^sup>2 = (cmod (a + b))\<^sup>2 / 2"
    by (simp add: norm_divide power_divide)
  have e2: "(cmod ((a - b) / complex_of_real (sqrt 2)))\<^sup>2 = (cmod (a - b))\<^sup>2 / 2"
    by (simp add: norm_divide power_divide)
  have "(cmod (a + b))\<^sup>2 + (cmod (a - b))\<^sup>2 = 2 * ((cmod a)\<^sup>2 + (cmod b)\<^sup>2)"
    unfolding cmod_power2 by (simp add: power2_eq_square algebra_simps)
  then show ?thesis
    unfolding e1 e2 by simp
qed

lemma toggle_bij: "bij_betw (toggle q) {x. length x = n} {x. length x = n}"
  by (rule bij_betw_byWitness[where f' = "toggle q"]) auto

lemma toggle_update: "q < length x \<Longrightarrow> toggle q x = x[q := \<not> x ! q]"
  by (simp add: toggle_def)

lemma hadamard_pair_at:
  assumes "q < length x"
  shows "(cmod (apply_gate (H_gate q) \<psi> x))\<^sup>2 + (cmod (apply_gate (H_gate q) \<psi> (toggle q x)))\<^sup>2
         = (cmod (\<psi> x))\<^sup>2 + (cmod (\<psi> (toggle q x)))\<^sup>2"
proof (cases "x ! q")
  case True
  then have x: "x[q := True] = x" "toggle q x = x[q := False]"
    using assms by (simp_all add: toggle_def list_update_same_conv)
  show ?thesis
    using assms True hadamard_pair[of "\<psi> (x[q := False])" "\<psi> x"]
    by (simp add: x add.commute)
next
  case False
  then have x: "x[q := False] = x" "toggle q x = x[q := True]"
    using assms by (simp_all add: toggle_def list_update_same_conv)
  show ?thesis
    using assms False hadamard_pair[of "\<psi> x" "\<psi> (x[q := True])"]
    by (simp add: x)
qed

lemma norm_sq_hadamard:
  assumes "q < n"
  shows "norm_sq n (apply_gate (H_gate q) \<psi>) = norm_sq n \<psi>"
proof -
  let ?B = "{x::bool list. length x = n}"
  let ?\<phi> = "apply_gate (H_gate q) \<psi>"
  have re: "(\<Sum>x\<in>?B. f (toggle q x)) = (\<Sum>x\<in>?B. f x)" for f :: "bool list \<Rightarrow> real"
    by (rule sum.reindex_bij_betw[OF toggle_bij])
  have "2 * norm_sq n ?\<phi> = (\<Sum>x\<in>?B. (cmod (?\<phi> x))\<^sup>2) + (\<Sum>x\<in>?B. (cmod (?\<phi> (toggle q x)))\<^sup>2)"
    unfolding norm_sq_sum re[of "\<lambda>x. (cmod (?\<phi> x))\<^sup>2"] by simp
  also have "\<dots> = (\<Sum>x\<in>?B. (cmod (?\<phi> x))\<^sup>2 + (cmod (?\<phi> (toggle q x)))\<^sup>2)"
    by (simp add: sum.distrib)
  also have "\<dots> = (\<Sum>x\<in>?B. (cmod (\<psi> x))\<^sup>2 + (cmod (\<psi> (toggle q x)))\<^sup>2)"
    by (rule sum.cong) (use assms hadamard_pair_at in auto)
  also have "\<dots> = (\<Sum>x\<in>?B. (cmod (\<psi> x))\<^sup>2) + (\<Sum>x\<in>?B. (cmod (\<psi> (toggle q x)))\<^sup>2)"
    by (simp add: sum.distrib)
  also have "\<dots> = 2 * norm_sq n \<psi>"
    unfolding norm_sq_sum re[of "\<lambda>x. (cmod (\<psi> x))\<^sup>2"] by simp
  finally show ?thesis by simp
qed

lemma norm_sq_apply_gate:
  "gate_wf n g \<Longrightarrow> norm_sq n (apply_gate g \<psi>) = norm_sq n \<psi>"
proof (cases "is_classical g")
  case True
  assume "gate_wf n g"
  with True show ?thesis by (rule norm_sq_classical[rotated])
next
  case False
  assume wf: "gate_wf n g"
  from False obtain q where g: "g = H_gate q" by (cases g) auto
  with wf have "q < n" by simp
  then show ?thesis unfolding g by (rule norm_sq_hadamard)
qed

lemma norm_sq_run:
  "list_all (gate_wf n) gs \<Longrightarrow> norm_sq n (run gs \<psi>) = norm_sq n \<psi>"
  by (induction gs arbitrary: \<psi>) (simp_all add: norm_sq_apply_gate)

text \<open>
  In exact arithmetic the squared magnitudes of the amplitudes sum to exactly 1 after
  every gate of a sequence (after every prefix \<open>take k gs\<close>) that starts in a basis state,
  when every gate lies in the register and every controlled-NOT acts on two different
  qubits. Rounding of complex doubles is outside this model.
\<close>

lemma norm_sq_prefix:
  assumes "list_all (gate_wf n) gs" "length x = n" "k \<le> length gs"
  shows "norm_sq n (run (take k gs) (ket x)) = 1"
proof -
  have "list_all (gate_wf n) (take k gs)"
    using assms(1) by (auto simp: list_all_iff dest: in_set_takeD)
  then show ?thesis
    using assms(2) by (simp add: norm_sq_run norm_sq_ket)
qed

section \<open>The Hadamard layer\<close>

lemma parity_of_snoc [simp]: "parity_of (x @ [a]) = (parity_of x \<noteq> a)"
  by (auto simp: parity_of_def)

lemma hsign_Nil [simp]: "hsign [] [] = 1"
  by (simp add: hsign_def)

lemma hsign_snoc:
  "length u = length w \<Longrightarrow> hsign (u @ [a]) (w @ [b]) = hsign u w * (if a \<and> b then - 1 else 1)"
  by (simp add: hsign_def)

lemma parity_and_zeros: "\<not> parity_of (map2 (\<lambda>a b. a \<and> b) (replicate n False) w)"
proof (induction n arbitrary: w)
  case 0
  then show ?case by simp
next
  case (Suc n)
  then show ?case by (cases w) simp_all
qed

lemma hsign_zeros [simp]: "hsign (replicate n False) w = 1"
  by (simp add: hsign_def parity_and_zeros)

lemma parity_and_zeros_right: "\<not> parity_of (map2 (\<lambda>a b. a \<and> b) w (replicate n False))"
proof (induction n arbitrary: w)
  case 0
  then show ?case by simp
next
  case (Suc n)
  then show ?case by (cases w) simp_all
qed

lemma hsign_zeros_right [simp]: "hsign w (replicate n False) = 1"
  by (simp add: hsign_def parity_and_zeros_right)

lemma bvecs_Suc:
  "{w::bool list. length w = Suc k}
     = (\<lambda>w. w @ [False]) ` {w. length w = k} \<union> (\<lambda>w. w @ [True]) ` {w. length w = k}"
proof (intro set_eqI iffI)
  fix w :: "bool list"
  assume "w \<in> {w. length w = Suc k}"
  then have w: "length w = Suc k" by simp
  then have "w \<noteq> []" by auto
  then have "w = butlast w @ [last w]" by simp
  moreover have "length (butlast w) = k" using w by simp
  ultimately show "w \<in> (\<lambda>w. w @ [False]) ` {w. length w = k} \<union> (\<lambda>w. w @ [True]) ` {w. length w = k}"
    by (cases "last w") (auto simp: image_iff)
next
  fix w :: "bool list"
  assume "w \<in> (\<lambda>w. w @ [False]) ` {w. length w = k} \<union> (\<lambda>w. w @ [True]) ` {w. length w = k}"
  then show "w \<in> {w. length w = Suc k}" by auto
qed

lemma sum_bvecs_Suc:
  fixes g :: "bool list \<Rightarrow> 'a::comm_monoid_add"
  shows "(\<Sum>w | length w = Suc k. g w) = (\<Sum>w | length w = k. g (w @ [False]) + g (w @ [True]))"
proof -
  let ?B = "{w::bool list. length w = k}"
  have "(\<Sum>w | length w = Suc k. g w)
        = sum g ((\<lambda>w. w @ [False]) ` ?B) + sum g ((\<lambda>w. w @ [True]) ` ?B)"
    unfolding bvecs_Suc by (rule sum.union_disjoint) auto
  also have "sum g ((\<lambda>w. w @ [False]) ` ?B) = (\<Sum>w\<in>?B. g (w @ [False]))"
    by (subst sum.reindex) (auto simp: inj_on_def)
  also have "sum g ((\<lambda>w. w @ [True]) ` ?B) = (\<Sum>w\<in>?B. g (w @ [True]))"
    by (subst sum.reindex) (auto simp: inj_on_def)
  finally show ?thesis by (simp add: sum.distrib)
qed

lemma bvecs_0 [simp]: "{w::bool list. length w = 0} = {[]}"
  by auto

lemma drop_update_at: "k < length x \<Longrightarrow> drop k (x[k := v]) = v # drop (Suc k) x"
  by (simp add: drop_update_swap flip: Cons_nth_drop_Suc)

text \<open>
  Hadamard gates on the qubits \<open>0 .. k-1\<close> of a register, one after the other, are the
  Walsh-Hadamard transform of its first \<open>k\<close> qubits.
\<close>

lemma run_h_layer:
  "k \<le> length x \<Longrightarrow>
     run (map H_gate [0..<k]) \<psi> x
       = (\<Sum>w | length w = k. hsign (take k x) w * \<psi> (w @ drop k x)) / rt2 ^ k"
proof (induction k arbitrary: x)
  case 0
  then show ?case by simp
next
  case (Suc k)
  let ?\<phi> = "run (map H_gate [0..<k]) \<psi>"
  let ?u = "take k x"
  let ?r = "drop (Suc k) x"
  let ?s = "(if x ! k then - 1 else 1) :: complex"
  have k: "k < length x" using Suc.prems by simp
  have ih: "?\<phi> (x[k := v]) = (\<Sum>w | length w = k. hsign ?u w * \<psi> (w @ v # ?r)) / rt2 ^ k" for v
    using Suc.IH[of "x[k := v]"] k by (simp add: drop_update_at)
  have tk: "take (Suc k) x = ?u @ [x ! k]"
    using k by (simp add: take_Suc_conv_app_nth)
  have "run (map H_gate [0..<Suc k]) \<psi> x = (?\<phi> (x[k := False]) + ?s * ?\<phi> (x[k := True])) / rt2"
    by simp
  also have "\<dots> = ((\<Sum>w | length w = k. hsign ?u w * \<psi> (w @ False # ?r))
                   + ?s * (\<Sum>w | length w = k. hsign ?u w * \<psi> (w @ True # ?r))) / rt2 ^ Suc k"
    unfolding ih by (simp add: field_simps)
  also have "(\<Sum>w | length w = k. hsign ?u w * \<psi> (w @ False # ?r))
                   + ?s * (\<Sum>w | length w = k. hsign ?u w * \<psi> (w @ True # ?r))
           = (\<Sum>w | length w = k. hsign ?u w * \<psi> (w @ False # ?r)
                   + ?s * (hsign ?u w * \<psi> (w @ True # ?r)))"
    by (simp add: sum.distrib sum_distrib_left)
  also have "\<dots> = (\<Sum>w | length w = k. hsign (take (Suc k) x) (w @ [False]) * \<psi> ((w @ [False]) @ ?r)
                   + hsign (take (Suc k) x) (w @ [True]) * \<psi> ((w @ [True]) @ ?r))"
    by (rule sum.cong) (use k in \<open>auto simp: tk hsign_snoc\<close>)
  also have "\<dots> = (\<Sum>w | length w = Suc k. hsign (take (Suc k) x) w * \<psi> (w @ ?r))"
    by (simp add: sum_bvecs_Suc)
  finally show ?case .
qed

section \<open>The Deutsch-Jozsa circuit, stage by stage\<close>

lemma ket_zeros_snoc:
  "length w = n \<Longrightarrow>
     ket (replicate (Suc n) False) (w @ [y]) = (if w = replicate n False \<and> \<not> y then 1 else 0)"
proof -
  have r: "replicate (Suc n) False = replicate n False @ [False]"
    by (simp add: replicate_append_same)
  show ?thesis
    unfolding ket_def r append1_eq_conv by auto
qed

lemma h_layer_on_zero:
  assumes "length x = n"
  shows "run (map H_gate [0..<n]) (ket (replicate (Suc n) False)) (x @ [y])
           = (if y then 0 else 1) / rt2 ^ n"
proof -
  have "run (map H_gate [0..<n]) (ket (replicate (Suc n) False)) (x @ [y])
        = (\<Sum>w | length w = n. hsign x w * ket (replicate (Suc n) False) (w @ [y])) / rt2 ^ n"
    using run_h_layer[of n "x @ [y]"] assms by simp
  also have "(\<Sum>w | length w = n. hsign x w * ket (replicate (Suc n) False) (w @ [y]))
           = (\<Sum>w | length w = n. if w = replicate n False then (if y then 0 else 1) else 0)"
    by (rule sum.cong) (simp_all only: ket_zeros_snoc mem_Collect_eq, auto)
  also have "\<dots> = (if y then 0 else 1)"
    by (simp add: sum.delta)
  finally show ?thesis .
qed

lemma minus_state_at:
  assumes "length x = n"
  shows "minus_state n (x @ [y]) = (if y then - 1 else 1) / rt2 ^ Suc n"
proof -
  have upd: "(x @ [y])[n := v] = x @ [v]" for v
    unfolding assms[symmetric] by simp
  have nth: "(x @ [y]) ! n = y"
    unfolding assms[symmetric] by simp
  have tg: "toggle n (x @ [v]) = x @ [\<not> v]" for v
    unfolding assms[symmetric] by simp
  show ?thesis
    using assms h_layer_on_zero[OF assms, of True] h_layer_on_zero[OF assms, of False]
    by (simp add: minus_state_def upd nth tg)
qed

lemma oracle_on_minus_state:
  assumes "list_all is_classical gs" "length x = n"
    and "basis_run (rev gs) (x @ [y]) = x @ [y \<noteq> f x]"
  shows "run gs (minus_state n) (x @ [y]) = (if y \<noteq> f x then - 1 else 1) / rt2 ^ Suc n"
  using assms by (simp add: run_classical minus_state_at)

lemma dj_zero_amplitude:
  assumes "list_all is_classical gs"
    and "\<And>x y. length x = n \<Longrightarrow> basis_run (rev gs) (x @ [y]) = x @ [y \<noteq> f x]"
  shows "run (map H_gate [0..<n]) (run gs (minus_state n)) (replicate n False @ [y])
           = (\<Sum>w | length w = n. if y \<noteq> f w then - 1 else 1) / rt2 ^ Suc n / rt2 ^ n"
proof -
  have "run (map H_gate [0..<n]) (run gs (minus_state n)) (replicate n False @ [y])
        = (\<Sum>w | length w = n. hsign (replicate n False) w * run gs (minus_state n) (w @ [y])) / rt2 ^ n"
    using run_h_layer[of n "replicate n False @ [y]"] by simp
  also have "(\<Sum>w | length w = n. hsign (replicate n False) w * run gs (minus_state n) (w @ [y]))
           = (\<Sum>w | length w = n. (if y \<noteq> f w then - 1 else 1) / rt2 ^ Suc n)"
    by (rule sum.cong) (use assms in \<open>auto simp: oracle_on_minus_state\<close>)
  also have "\<dots> = (\<Sum>w | length w = n. if y \<noteq> f w then - 1 else 1) / rt2 ^ Suc n"
    by (simp add: sum_divide_distrib)
  finally show ?thesis .
qed

lemma length_basis_states: "length (basis_states n) = 2 ^ n"
  by (simp add: basis_states_def length_n_lists numeral_2_eq_2)

lemma card_bvecs: "card {w::bool list. length w = n} = 2 ^ n"
  using distinct_card[OF distinct_basis_states[of n]]
  unfolding set_basis_states length_basis_states .

lemma rt2_power_even: "rt2 ^ Suc n * rt2 ^ n = rt2 * 2 ^ n"
proof -
  have "rt2 ^ n * rt2 ^ n = (rt2 * rt2) ^ n"
    by (simp add: power_mult_distrib)
  also have "rt2 * rt2 = 2"
    by (simp flip: of_real_mult)
  finally show ?thesis by simp
qed

lemma cmod_rt2 [simp]: "cmod rt2 = sqrt 2"
  by simp

lemma dj_constant_amplitude:
  assumes "list_all is_classical gs"
    and "\<And>x y. length x = n \<Longrightarrow> basis_run (rev gs) (x @ [y]) = x @ [y \<noteq> c]"
  shows "(cmod (run (map H_gate [0..<n]) (run gs (minus_state n)) (replicate n False @ [y])))\<^sup>2 = 1 / 2"
proof -
  let ?s = "(if y \<noteq> c then - 1 else 1) :: complex"
  let ?a = "run (map H_gate [0..<n]) (run gs (minus_state n)) (replicate n False @ [y])"
  have "?a = (\<Sum>w::bool list | length w = n. if y \<noteq> c then - 1 else 1) / rt2 ^ Suc n / rt2 ^ n"
    by (rule dj_zero_amplitude[where f = "\<lambda>x. c"]) (use assms in auto)
  also have "(\<Sum>w::bool list | length w = n. if y \<noteq> c then - 1 else 1) = 2 ^ n * ?s"
    by (simp only: sum_constant card_bvecs) simp
  also have "2 ^ n * ?s / rt2 ^ Suc n / rt2 ^ n = 2 ^ n * ?s / (rt2 ^ Suc n * rt2 ^ n)"
    by (simp only: divide_divide_eq_left)
  also have "\<dots> = 2 ^ n * ?s / (rt2 * 2 ^ n)"
    by (simp only: rt2_power_even)
  also have "\<dots> = ?s / rt2"
    by simp
  finally have "cmod ?a = 1 / sqrt 2"
    by (simp add: norm_divide)
  then show ?thesis by (simp add: power_divide)
qed

lemma parity_toggle_0: "0 < length w \<Longrightarrow> parity_of (toggle 0 w) = (\<not> parity_of w)"
  by (cases w) (auto simp: toggle_def)

lemma sum_parity_sign:
  fixes c d :: complex
  assumes "1 \<le> n"
  shows "(\<Sum>w | length w = n. if parity_of w = p then - 1 else (1::complex)) = 0"
proof -
  let ?B = "{w::bool list. length w = n}"
  let ?g = "\<lambda>w. if parity_of w = p then - 1 else (1::complex)"
  have "sum ?g ?B = (\<Sum>w\<in>?B. ?g (toggle 0 w))"
    by (rule sum.reindex_bij_betw[OF toggle_bij, symmetric])
  also have "\<dots> = (\<Sum>w\<in>?B. - ?g w)"
    by (rule sum.cong) (use assms in \<open>auto simp: parity_toggle_0\<close>)
  also have "\<dots> = - sum ?g ?B"
    by (simp add: sum_negf)
  finally show ?thesis by simp
qed

lemma dj_balanced_amplitude:
  assumes "1 \<le> n" "list_all is_classical gs"
    and "\<And>x y. length x = n \<Longrightarrow> basis_run (rev gs) (x @ [y]) = x @ [(y \<noteq> parity_of x) \<noteq> p]"
  shows "run (map H_gate [0..<n]) (run gs (minus_state n)) (replicate n False @ [y]) = 0"
proof -
  have "run (map H_gate [0..<n]) (run gs (minus_state n)) (replicate n False @ [y])
         = (\<Sum>w | length w = n. if y \<noteq> (parity_of w \<noteq> p) then - 1 else 1) / rt2 ^ Suc n / rt2 ^ n"
    by (rule dj_zero_amplitude[where f = "\<lambda>x. parity_of x \<noteq> p"]) (use assms in auto)
  also have "(\<Sum>w | length w = n. if y \<noteq> (parity_of w \<noteq> p) then - 1 else (1::complex))
           = (\<Sum>w | length w = n. if parity_of w = (y = p) then - 1 else 1)"
    by (rule sum.cong) auto
  also have "\<dots> = 0"
    using assms(1) by (rule sum_parity_sign)
  finally show ?thesis by simp
qed

section \<open>The Deutsch-Jozsa decision\<close>

lemma measure_prefix:
  "k \<le> n \<Longrightarrow> n \<le> length x \<Longrightarrow>
     foldl (\<lambda>cl (q, c). cl[c := x ! q]) (replicate n False) (map (\<lambda>i. (i, i)) [0..<k])
       = take k x @ replicate (n - k) False"
proof (induction k)
  case 0
  then show ?case by simp
next
  case (Suc k)
  then have r: "replicate (n - k) False = False # replicate (n - Suc k) False"
    by (cases "n - k") (simp_all add: Suc_diff_Suc)
  have "length (take k x) = k" using Suc.prems by simp
  then have "(take k x @ False # replicate (n - Suc k) False)[k := x ! k]
             = take k x @ x ! k # replicate (n - Suc k) False"
    by (metis list_update_length)
  then show ?case
    using Suc by (simp add: r take_Suc_conv_app_nth)
qed

lemma measure_all:
  "n \<le> length x \<Longrightarrow>
     foldl (\<lambda>cl (q, c). cl[c := x ! q]) (replicate n False) (map (\<lambda>i. (i, i)) [0..<n]) = take n x"
  using measure_prefix[of n n x] by simp

lemma bit_char_inj: "bit_char a = bit_char b \<longleftrightarrow> a = b"
  by (simp add: bit_char_def)

lemma key_zero_iff:
  "length u = n \<Longrightarrow> rev (map bit_char u) = replicate n CHR ''0'' \<longleftrightarrow> u = replicate n False"
proof -
  assume len: "length u = n"
  have z: "replicate n CHR ''0'' = map bit_char (replicate n False)"
    by (simp add: bit_char_def)
  have "rev (map bit_char u) = replicate n CHR ''0'' \<longleftrightarrow> map bit_char u = rev (replicate n CHR ''0'')"
    by (metis rev_rev_ident)
  also have "\<dots> \<longleftrightarrow> map bit_char u = map bit_char (replicate n False)"
    by (simp add: z)
  also have "\<dots> \<longleftrightarrow> u = replicate n False"
    by (rule inj_map_eq_map) (simp add: inj_on_def bit_char_inj)
  finally show ?thesis .
qed

lemma outcome_prob_sum:
  "outcome_prob C key
     = (\<Sum>x | length x = num_qubits C \<and> outcome_key C x = key. (cmod (final_state C x))\<^sup>2)"
proof -
  have "distinct (filter (\<lambda>x. outcome_key C x = key) (basis_states (num_qubits C)))"
    by (simp add: distinct_basis_states)
  moreover have "set (filter (\<lambda>x. outcome_key C x = key) (basis_states (num_qubits C)))
                 = {x. length x = num_qubits C \<and> outcome_key C x = key}"
    by (auto simp: set_basis_states)
  ultimately show ?thesis
    unfolding outcome_prob_def by (simp add: sum_list_distinct_conv_sum_set)
qed

lemma dj_outcome_key:
  "length u = n \<Longrightarrow> outcome_key (dj_circuit gs n) (u @ [y]) = rev (map bit_char u)"
  using measure_all[of n "u @ [y]"] by (simp add: outcome_key_def dj_circuit_def)

lemma snoc_length_cases:
  assumes "length x = Suc n"
  obtains u y where "x = u @ [y]" "length u = n"
proof -
  from assms have "x \<noteq> []" by auto
  then have "x = butlast x @ [last x]" by simp
  moreover have "length (butlast x) = n" using assms by simp
  ultimately show ?thesis using that by blast
qed

lemma dj_zero_key_set:
  "{x. length x = num_qubits (dj_circuit gs n) \<and> outcome_key (dj_circuit gs n) x = replicate n CHR ''0''}
     = {replicate n False @ [False], replicate n False @ [True]}"
  (is "?L = ?R")
proof (intro set_eqI iffI)
  fix x assume "x \<in> ?L"
  then have len: "length x = Suc n" and key: "outcome_key (dj_circuit gs n) x = replicate n CHR ''0''"
    by (simp_all add: dj_circuit_def)
  from len obtain u y where x: "x = u @ [y]" "length u = n"
    by (rule snoc_length_cases)
  with key have "u = replicate n False"
    by (simp add: dj_outcome_key key_zero_iff)
  with x show "x \<in> ?R" by (cases y) simp_all
next
  fix x assume "x \<in> ?R"
  then obtain y where x: "x = replicate n False @ [y]" by auto
  have "outcome_key (dj_circuit gs n) x = replicate n CHR ''0''"
    unfolding x by (simp add: dj_outcome_key bit_char_def)
  then show "x \<in> ?L" by (simp add: x dj_circuit_def)
qed

lemma dj_final_state:
  "final_state (dj_circuit gs n) = run (map H_gate [0..<n]) (run gs (minus_state n))"
  by (simp add: final_state_def dj_circuit_def minus_state_def)

lemma dj_zero_prob:
  "outcome_prob (dj_circuit gs n) (replicate n CHR ''0'')
     = (cmod (run (map H_gate [0..<n]) (run gs (minus_state n)) (replicate n False @ [False])))\<^sup>2
     + (cmod (run (map H_gate [0..<n]) (run gs (minus_state n)) (replicate n False @ [True])))\<^sup>2"
  unfolding outcome_prob_sum dj_zero_key_set dj_final_state by simp

lemma dj_circuit_in_bounds:
  "circuit_in_bounds (dj_circuit gs n) \<longleftrightarrow> list_all (gate_in_bounds (Suc n)) gs"
  by (auto simp: circuit_in_bounds_def dj_circuit_def list_all_iff)

lemma gate_wf_in_bounds: "gate_wf n g \<Longrightarrow> gate_in_bounds n g"
  by (cases g) simp_all

lemma dj_circuit_wf:
  "list_all (gate_wf (Suc n)) gs \<Longrightarrow> list_all (gate_wf (Suc n)) (ops (dj_circuit gs n))"
  by (auto simp: dj_circuit_def list_all_iff)

lemma dj_get_oracle_constant:
  "dj_get_oracle ''constant'' n b rand = Inr (constant_gates n rand)"
  by (simp add: dj_get_oracle_def constant_gates_def)

lemma constant_gates_props:
  "list_all (gate_wf (Suc n)) (constant_gates n rand)"
  "list_all is_classical (constant_gates n rand)"
  "length x = n \<Longrightarrow> basis_run (rev (constant_gates n rand)) (x @ [y]) = x @ [y \<noteq> (rand = 1)]"
  by (auto simp: constant_gates_def)

lemma dj_constant_zero_prob:
  "outcome_prob (dj_circuit (constant_gates n rand) n) (replicate n CHR ''0'') = 1"
proof -
  have h: "(cmod (run (map H_gate [0..<n]) (run (constant_gates n rand) (minus_state n))
          (replicate n False @ [y])))\<^sup>2 = 1 / 2" for y
    by (rule dj_constant_amplitude[where c = "rand = 1"]) (simp_all add: constant_gates_props)
  show ?thesis
    unfolding dj_zero_prob h[of False] h[of True] by simp
qed

lemma dj_balanced_zero_prob:
  assumes "1 \<le> n" "b < 2 ^ n"
  shows "outcome_prob (dj_circuit (balanced_gates n b) n) (replicate n CHR ''0'') = 0"
proof -
  have h: "run (map H_gate [0..<n]) (run (balanced_gates n b) (minus_state n))
          (replicate n False @ [y]) = 0" for y
    by (rule dj_balanced_amplitude[where p = "odd (popcount b)"])
       (use assms balanced_gates_props[OF assms] basis_run_balanced(2)[OF assms] in simp_all)
  show ?thesis
    unfolding dj_zero_prob h[of False] h[of True] by simp
qed

lemma dj_norm:
  "list_all (gate_wf (Suc n)) gs \<Longrightarrow> norm_sq (Suc n) (final_state (dj_circuit gs n)) = 1"
  using norm_sq_run[of "Suc n" "ops (dj_circuit gs n)" "ket (replicate (Suc n) False)"]
    dj_circuit_wf[of n gs]
  by (simp add: final_state_def norm_sq_ket) (simp add: dj_circuit_def)

lemma certain_outcome_excludes_others:
  assumes "norm_sq (num_qubits C) (final_state C) = 1" "outcome_prob C k0 = 1" "key \<noteq> k0"
  shows "outcome_prob C key = 0"
proof -
  let ?B = "{x::bool list. length x = num_qubits C}"
  let ?Z = "{x. length x = num_qubits C \<and> outcome_key C x = k0}"
  let ?K = "{x. length x = num_qubits C \<and> outcome_key C x = key}"
  let ?p = "\<lambda>x. (cmod (final_state C x))\<^sup>2"
  have sub: "?Z \<subseteq> ?B" by auto
  have fin: "finite ?B" by simp
  have total: "sum ?p ?B = 1"
    using assms(1) by (simp add: norm_sq_sum)
  have zero: "sum ?p ?Z = 1"
    using assms(2) by (simp add: outcome_prob_sum)
  have "sum ?p ?B = sum ?p (?B - ?Z) + sum ?p ?Z"
    using sub fin by (simp add: sum.subset_diff)
  with total zero have "sum ?p (?B - ?Z) = 0" by simp
  moreover have "finite (?B - ?Z)" using fin by simp
  ultimately have "\<forall>x\<in>?B - ?Z. ?p x = 0"
    by (subst (asm) sum_nonneg_eq_0_iff) auto
  moreover have "?K \<subseteq> ?B - ?Z" using assms(3) by auto
  ultimately have "sum ?p ?K = 0"
    by (intro sum.neutral) blast
  then show ?thesis by (simp add: outcome_prob_sum)
qed

lemma dj_constant_other_prob:
  assumes "key \<noteq> replicate n CHR ''0''"
  shows "outcome_prob (dj_circuit (constant_gates n rand) n) key = 0"
proof (rule certain_outcome_excludes_others[OF _ dj_constant_zero_prob assms])
  show "norm_sq (num_qubits (dj_circuit (constant_gates n rand) n))
          (final_state (dj_circuit (constant_gates n rand) n)) = 1"
    using dj_norm[of n "constant_gates n rand"] constant_gates_props(1)[of n rand]
    by (simp add: dj_circuit_def)
qed

text \<open>
  C5: for every \<open>n \<ge> 1\<close> and every oracle the Deutsch-Jozsa builder produces, one run of
  \<open>dj_circuit\<close> yields the all-zero outcome with probability 1 when the oracle is
  constant and with probability 0 when it is balanced; with a constant oracle every
  other outcome has probability 0, so an outcome other than all zeros is seen only with a
  balanced oracle. A balanced oracle is produced for \<open>n \<le> 63\<close>; beyond, the builder
  raises ValueError and nothing is run.
\<close>

theorem dj_decides_constant_balanced:
  assumes "1 \<le> n" "1 \<le> b" "b < 2 ^ n"
  shows "dj_pipeline ''constant'' n b rand (replicate n CHR ''0'') = Inr 1
       \<and> dj_pipeline ''balanced'' n b rand (replicate n CHR ''0'')
           = (if n \<le> 63 then Inr 0 else Inl ValueError)
       \<and> (\<forall>key. key \<noteq> replicate n CHR ''0'' \<longrightarrow> dj_pipeline ''constant'' n b rand key = Inr 0)"
proof -
  have cb: "circuit_in_bounds (dj_circuit (constant_gates n rand) n)"
    using constant_gates_props(1)[of n rand]
    by (auto simp: dj_circuit_in_bounds list_all_iff gate_wf_in_bounds)
  have bb: "circuit_in_bounds (dj_circuit (balanced_gates n b) n)"
    using balanced_gates_props(1)[OF assms(1,3)]
    by (auto simp: dj_circuit_in_bounds list_all_iff gate_wf_in_bounds)
  have c1: "dj_pipeline ''constant'' n b rand (replicate n CHR ''0'') = Inr 1"
    using cb by (simp add: dj_pipeline_def dj_get_oracle_constant measure_prob_def
        dj_constant_zero_prob)
  have c2: "dj_pipeline ''constant'' n b rand key = Inr 0" if "key \<noteq> replicate n CHR ''0''" for key
    using cb that by (simp add: dj_pipeline_def dj_get_oracle_constant measure_prob_def
        dj_constant_other_prob)
  have b1: "dj_pipeline ''balanced'' n b rand (replicate n CHR ''0'') = Inr 0" if "n \<le> 63"
    using assms bb that by (simp add: dj_pipeline_def dj_get_oracle_balanced measure_prob_def
        dj_balanced_zero_prob)
  have b2: "dj_pipeline ''balanced'' n b rand (replicate n CHR ''0'') = Inl ValueError"
    if "\<not> n \<le> 63"
    using that by (simp add: dj_pipeline_def dj_get_oracle_balanced_raises)
  show ?thesis
    using c1 c2 b1 b2 by simp
qed

theorem dj_decides_constant_balanced_witness:
  "dj_pipeline ''constant'' 3 5 1 ''000'' = Inr 1
   \<and> dj_pipeline ''balanced'' 3 5 1 ''000'' = Inr 0
   \<and> dj_pipeline ''constant'' 3 5 1 ''101'' = Inr 0"
  using dj_decides_constant_balanced[of 3 5 1] by (simp add: numeral_3_eq_3)

section \<open>The Bernstein-Vazirani circuit\<close>

lemma inputs_zero_ket: "inputs_zero n (ket (replicate (Suc n) False))"
proof -
  have "take n (replicate (Suc n) False) = replicate n False"
    by (simp only: take_replicate) simp
  then show ?thesis
    unfolding inputs_zero_def ket_def by metis
qed

lemma take_toggle: "take n (toggle n x) = take n x"
  by (simp add: toggle_def)

lemma inputs_zero_apply:
  assumes "ancilla_gate n g" "inputs_zero n \<psi>"
  shows "inputs_zero n (apply_gate g \<psi>)"
proof (cases g)
  case (H_gate q)
  with assms show ?thesis by (auto simp: inputs_zero_def)
next
  case (X_gate q)
  with assms show ?thesis by (auto simp: inputs_zero_def take_toggle)
next
  case (CX_gate c t)
  with assms show ?thesis by (auto simp: inputs_zero_def take_toggle)
qed (use assms in \<open>auto simp: inputs_zero_def\<close>)

lemma inputs_zero_run:
  "list_all (ancilla_gate n) gs \<Longrightarrow> inputs_zero n \<psi> \<Longrightarrow> inputs_zero n (run gs \<psi>)"
  by (induction gs arbitrary: \<psi>) (simp_all add: inputs_zero_apply)

lemma ancilla_gate_wf: "ancilla_gate n g \<Longrightarrow> gate_wf (Suc n) g"
  by (cases g) auto

lemma bv_algorithm_ops:
  "list_all (bv_oracle_gate n) gs \<Longrightarrow> list_all (ancilla_gate n) (ops (bv_algorithm gs n))"
proof -
  assume "list_all (bv_oracle_gate n) gs"
  then have "list_all (ancilla_gate n) gs"
    by (rule list.pred_mono_strong) (auto elim: bv_oracle_gate.elims)
  then show ?thesis
    by (auto simp: bv_algorithm_def list_all_iff)
qed

lemma bv_outcome_key:
  "length x = Suc n \<Longrightarrow> outcome_key (bv_algorithm gs n) x = rev (map bit_char (take n x))"
  using measure_all[of n x] by (simp add: outcome_key_def bv_algorithm_def)

text \<open>
  \<open>bv_algorithm\<close> touches the input qubits only as controls, so they stay 0: whatever
  oracle of identity and \<open>CX(q, n)\<close> gates it wraps, the outcome is all zeros.
\<close>

lemma bv_algorithm_all_zero:
  assumes "list_all (bv_oracle_gate n) gs"
  shows "outcome_prob (bv_algorithm gs n) (replicate n CHR ''0'') = 1"
proof -
  let ?C = "bv_algorithm gs n"
  let ?p = "\<lambda>x. (cmod (final_state ?C x))\<^sup>2"
  have nq: "num_qubits ?C = Suc n" by (simp add: bv_algorithm_def)
  have anc: "list_all (ancilla_gate n) (ops ?C)"
    using assms by (rule bv_algorithm_ops)
  then have wf: "list_all (gate_wf (Suc n)) (ops ?C)"
    by (rule list.pred_mono_strong) (simp add: ancilla_gate_wf)
  have iz: "inputs_zero n (final_state ?C)"
    unfolding final_state_def nq using anc inputs_zero_ket by (rule inputs_zero_run)
  have total: "(\<Sum>x | length x = Suc n. ?p x) = 1"
    using norm_sq_run[OF wf, of "ket (replicate (Suc n) False)"]
    by (simp add: final_state_def nq norm_sq_sum norm_sq_ket[unfolded norm_sq_sum])
  have k: "outcome_key ?C x = replicate n CHR ''0'' \<longleftrightarrow> take n x = replicate n False"
    if "length x = Suc n" for x
    using that key_zero_iff[of "take n x" n] by (simp add: bv_outcome_key)
  have "{x. length x = Suc n \<and> outcome_key ?C x = replicate n CHR ''0''}
        = {x. length x = Suc n \<and> take n x = replicate n False}"
    using k by blast
  then have "outcome_prob ?C (replicate n CHR ''0'')
        = (\<Sum>x | length x = Suc n \<and> take n x = replicate n False. ?p x)"
    unfolding outcome_prob_sum nq by simp
  also have "\<dots> = (\<Sum>x | length x = Suc n. ?p x)"
    by (rule sum.mono_neutral_left) (use iz in \<open>auto simp: inputs_zero_def\<close>)
  finally show ?thesis using total by simp
qed

lemma bv_algorithm_in_bounds:
  "list_all (bv_oracle_gate n) gs \<Longrightarrow> circuit_in_bounds (bv_algorithm gs n)"
proof -
  assume "list_all (bv_oracle_gate n) gs"
  then have "list_all (gate_in_bounds (Suc n)) gs"
    by (rule list.pred_mono_strong) (auto elim: bv_oracle_gate.elims)
  then show ?thesis
    by (auto simp: circuit_in_bounds_def bv_algorithm_def list_all_iff)
qed

lemma bv_algorithm_probs:
  assumes "list_all (bv_oracle_gate n) gs"
  shows "measure_prob (bv_algorithm gs n) (replicate n CHR ''0'') = Inr 1"
    and "key \<noteq> replicate n CHR ''0'' \<Longrightarrow> measure_prob (bv_algorithm gs n) key = Inr 0"
proof -
  let ?C = "bv_algorithm gs n"
  have wf: "list_all (gate_wf (Suc n)) (ops ?C)"
    using bv_algorithm_ops[OF assms] by (rule list.pred_mono_strong) (simp add: ancilla_gate_wf)
  have "norm_sq (num_qubits ?C) (final_state ?C) = 1"
    using norm_sq_run[OF wf, of "ket (replicate (Suc n) False)"]
    by (simp add: final_state_def norm_sq_ket) (simp add: bv_algorithm_def)
  then have "key \<noteq> replicate n CHR ''0'' \<Longrightarrow> outcome_prob ?C key = 0"
    using bv_algorithm_all_zero[OF assms] by (rule certain_outcome_excludes_others)
  then show "key \<noteq> replicate n CHR ''0'' \<Longrightarrow> measure_prob ?C key = Inr 0"
    by (simp add: measure_prob_def bv_algorithm_in_bounds[OF assms])
  show "measure_prob ?C (replicate n CHR ''0'') = Inr 1"
    by (simp add: measure_prob_def bv_algorithm_in_bounds[OF assms] bv_algorithm_all_zero[OF assms])
qed

lemma bv_get_oracle_gates:
  "bv_get_oracle i s = Inr gs \<Longrightarrow> list_all (bv_oracle_gate (length s)) gs"
  using bv_get_oracle_uniform[of i s gs] by (auto simp: list_all_iff)

lemma bv_pipeline_never_recovers:
  assumes "s \<noteq> replicate (length s) CHR ''0''"
  shows "bv_pipeline i s \<noteq> Inr 1"
proof (cases "bv_get_oracle i s")
  case (Inl e)
  then show ?thesis by (simp add: bv_pipeline_def)
next
  case (Inr gs)
  from bv_algorithm_probs(2)[OF bv_get_oracle_gates[OF Inr] assms] Inr
  show ?thesis by (simp add: bv_pipeline_def)
qed

text \<open>
  C1: building the Bernstein-Vazirani oracle for \<open>s\<close>, running \<open>bv_algorithm\<close> for one
  shot and reading the outcome yields \<open>s\<close> with probability 1. The code does not: for
  \<open>s = 1\<close> the builder raises NameError in the notebook as written, under no binding of
  the global \<open>i\<close> does the pipeline return \<open>s\<close> with probability 1, and with the oracle the
  contract asks for (a CX from qubit 0 to qubit 1) the circuit yields the outcome \<open>0\<close> with
  probability 1 and \<open>s\<close> with probability 0, because both Hadamard loops act on qubit
  \<open>n\<close> and never on the input qubits.
\<close>

theorem bv_pipeline_misses_hidden_string:
  "bv_pipeline None ''1'' = Inl NameError
   \<and> (\<forall>i. bv_pipeline i ''1'' \<noteq> Inr 1)
   \<and> measure_prob (bv_algorithm [CX_gate 0 1] 1) ''1'' = Inr 0
   \<and> measure_prob (bv_algorithm [CX_gate 0 1] 1) ''0'' = Inr 1"
proof -
  have a: "bv_pipeline None ''1'' = Inl NameError"
    by (simp add: bv_pipeline_def bv_get_oracle_unbound)
  have b: "bv_pipeline i ''1'' \<noteq> Inr 1" for i
    by (rule bv_pipeline_never_recovers) simp
  have g: "list_all (bv_oracle_gate 1) [CX_gate 0 1]"
    by simp
  have c: "measure_prob (bv_algorithm [CX_gate 0 1] 1) ''1'' = Inr 0"
    using bv_algorithm_probs(2)[OF g, of "''1''"] by simp
  have d: "measure_prob (bv_algorithm [CX_gate 0 1] 1) ''0'' = Inr 1"
    using bv_algorithm_probs(1)[OF g] by simp
  show ?thesis using a b c d by blast
qed

section \<open>The Simon circuit on a concrete string\<close>

lemma rt2_sq [simp]: "rt2 * rt2 = 2"
  by (simp flip: of_real_mult)

lemma simon_10_ops:
  "ops (simon_circuit ''10'' []) =
     [H_gate 0, H_gate 1, Barrier, CX_gate 0 2, CX_gate 1 3, CX_gate 0 2, Barrier,
      H_gate 0, H_gate 1]"
  by code_simp

lemma simon_10_start:
  "replicate (num_qubits (simon_circuit ''10'' [])) False = [False, False, False, False]"
  by code_simp

lemma simon_10_key_states:
  "filter (\<lambda>x. outcome_key (simon_circuit ''10'' []) x = ''10'')
       (basis_states (num_qubits (simon_circuit ''10'' [])))
     = [[False, True, False, False], [False, True, True, False],
        [False, True, False, True], [False, True, True, True]]"
  by code_simp

lemma simon_10_amplitudes:
  "final_state (simon_circuit ''10'' []) [False, True, False, False] = 1 / 2"
  "final_state (simon_circuit ''10'' []) [False, True, True, False] = 0"
  "final_state (simon_circuit ''10'' []) [False, True, False, True] = - 1 / 2"
  "final_state (simon_circuit ''10'' []) [False, True, True, True] = 0"
  unfolding final_state_def simon_10_ops simon_10_start
  by (simp_all add: ket_def toggle_def field_simps)

lemma simon_10_in_bounds: "circuit_in_bounds (simon_circuit ''10'' [])"
  by code_simp

text \<open>
  C6: every outcome \<open>z\<close> that one run of the Simon circuit built for \<open>s\<close> can give satisfies
  \<open>z . s = 0 (mod 2)\<close>. The code does not: for \<open>s = 10\<close> (no swap drawn) the outcome counted
  under the key \<open>10\<close> has probability 1/2, and \<open>bdotz\<close> of \<open>s\<close> and that key is 1.
\<close>

theorem simon_outcome_not_orthogonal:
  "measure_prob (simon_circuit ''10'' []) ''10'' = Inr (1 / 2)
   \<and> swaps_drawn 2 []
   \<and> bdotz ''10'' ''10'' = Inr 1"
proof -
  have "outcome_prob (simon_circuit ''10'' []) ''10'' = 1 / 2"
    unfolding outcome_prob_def simon_10_key_states
    by (simp add: simon_10_amplitudes power2_eq_square norm_divide)
  moreover have "swaps_drawn 2 []" "bdotz ''10'' ''10'' = Inr 1"
    by code_simp+
  ultimately show ?thesis
    by (simp add: measure_prob_def simon_10_in_bounds)
qed

section \<open>The Simon circuit with its outcomes read in qubit order\<close>

lemma length_swap_out [simp]: "length (swap_out n sw v) = length v"
  unfolding swap_out_def by (induction sw arbitrary: v) (auto split: prod.splits)

lemma swap_out_Cons:
  "swap_out n ((a, b) # sw) v = swap_out n sw (v[a - n := v ! (b - n), b - n := v ! (a - n)])"
  by (simp add: swap_out_def)

lemma basis_run_swap_gates:
  "list_all (in_second n) sw \<Longrightarrow> length w = n \<Longrightarrow> length v = n \<Longrightarrow>
     basis_run (map (\<lambda>(a, b). Swap_gate a b) sw) (w @ v) = w @ swap_out n sw v"
proof (induction sw arbitrary: v)
  case Nil
  then show ?case by (simp add: swap_out_def)
next
  case (Cons p sw)
  obtain a b where p: "p = (a, b)" by (cases p)
  have ab: "n \<le> a" "a < 2 * n" "n \<le> b" "b < 2 * n"
    using Cons.prems(1) by (simp_all add: p in_second_def)
  have "gate_perm (Swap_gate a b) (w @ v) = w @ v[a - n := v ! (b - n), b - n := v ! (a - n)]"
    using ab Cons.prems(2,3) by (simp add: list_update_append nth_append)
  then show ?case
    using Cons by (simp add: p swap_out_Cons)
qed

lemma simon_rev_oracle:
  assumes "swaps_drawn (length s) swaps" "length v = length s"
  shows "\<exists>v'. length v' = length s \<and> (\<forall>w. length w = length s \<longrightarrow>
           basis_run (rev (simon_oracle s swaps)) (w @ v)
             = w @ map (\<lambda>i. (v' ! i \<noteq> (s ! i = CHR ''1'' \<and> w ! i)) \<noteq> w ! i) [0..<length s])"
proof -
  let ?n = "length s"
  let ?ones = "filter (\<lambda>i. s ! i = CHR ''1'') [0..<?n]"
  let ?sw = "rev (filter (\<lambda>(x, y). x \<noteq> y) swaps)"
  let ?v' = "swap_out ?n ?sw v"
  have sw: "list_all (in_second ?n) ?sw"
    using assms(1) by (auto simp: swaps_drawn_def list_all_iff in_second_def)
  have rev_oracle: "rev (simon_oracle s swaps)
      = map (\<lambda>(a, b). Swap_gate a b) ?sw
        @ map (\<lambda>i. CX_gate i (?n + i)) (rev ?ones)
        @ map (\<lambda>q. CX_gate q (?n + q)) (rev [0..<?n])"
    unfolding simon_oracle_def Let_def by (simp add: rev_map)
  have main: "basis_run (rev (simon_oracle s swaps)) (w @ v)
             = w @ map (\<lambda>i. (?v' ! i \<noteq> (s ! i = CHR ''1'' \<and> w ! i)) \<noteq> w ! i) [0..<?n]"
    if w: "length w = ?n" for w
  proof -
    let ?v2 = "map (\<lambda>i. ?v' ! i \<noteq> (i \<in> set (rev ?ones) \<and> w ! i)) [0..<?n]"
    have s1: "basis_run (map (\<lambda>(a, b). Swap_gate a b) ?sw) (w @ v) = w @ ?v'"
      using sw w assms(2) by (rule basis_run_swap_gates)
    have s2: "basis_run (map (\<lambda>i. CX_gate i (?n + i)) (rev ?ones)) (w @ ?v') = w @ ?v2"
      by (rule basis_run_cx_pairs) (use w assms(2) in auto)
    have s3: "basis_run (map (\<lambda>q. CX_gate q (?n + q)) (rev [0..<?n])) (w @ ?v2)
              = w @ map (\<lambda>i. ?v2 ! i \<noteq> (i \<in> set (rev [0..<?n]) \<and> w ! i)) [0..<?n]"
      by (rule basis_run_cx_pairs) (use w in auto)
    have s4: "map (\<lambda>i. ?v2 ! i \<noteq> (i \<in> set (rev [0..<?n]) \<and> w ! i)) [0..<?n]
              = map (\<lambda>i. (?v' ! i \<noteq> (s ! i = CHR ''1'' \<and> w ! i)) \<noteq> w ! i) [0..<?n]"
      by (rule map_cong) auto
    show ?thesis
      unfolding rev_oracle basis_run_append s1 s2 s3 s4 ..
  qed
  show ?thesis
    by (rule exI[of _ ?v']) (use main assms(2) in simp)
qed

lemma parity_of_append: "parity_of (a @ b) = (parity_of a \<noteq> parity_of b)"
  by (induction a) auto

lemma parity_toggle:
  assumes "i < length z"
  shows "parity_of (toggle i z) = (\<not> parity_of z)"
proof -
  have "z = take i z @ z ! i # drop (Suc i) z"
    using assms by (rule id_take_nth_drop)
  moreover have "toggle i z = take i z @ (\<not> z ! i) # drop (Suc i) z"
    using assms by (simp add: toggle_def upd_conv_take_nth_drop)
  ultimately show ?thesis
    by (metis parity_of_append parity_of_Cons)
qed

lemma hsign_toggle:
  assumes "i < length u" "length w = length u" "u ! i"
  shows "hsign u (toggle i w) = - hsign u w"
proof -
  have "map2 (\<lambda>a b. a \<and> b) u (toggle i w) = toggle i (map2 (\<lambda>a b. a \<and> b) u w)"
    using assms by (auto intro!: nth_equalityI simp: nth_toggle)
  then show ?thesis
    using assms by (simp add: hsign_def parity_toggle)
qed

lemma sum_antisymmetric:
  fixes g :: "bool list \<Rightarrow> complex"
  assumes "\<And>w. length w = n \<Longrightarrow> g (toggle i w) = - g w"
  shows "(\<Sum>w | length w = n. g w) = 0"
proof -
  let ?B = "{w::bool list. length w = n}"
  have "sum g ?B = (\<Sum>w\<in>?B. g (toggle i w))"
    by (rule sum.reindex_bij_betw[OF toggle_bij, symmetric])
  also have "\<dots> = (\<Sum>w\<in>?B. - g w)"
    by (rule sum.cong) (use assms in auto)
  also have "\<dots> = - sum g ?B"
    by (simp add: sum_negf)
  finally show ?thesis by simp
qed

lemma ket_zeros_append:
  assumes "length u = n" "length r = n"
  shows "ket (replicate (2 * n) False) (u @ r)
           = (if u = replicate n False \<and> r = replicate n False then 1 else 0)"
proof -
  have "replicate (2 * n) False = replicate n False @ replicate n False"
    by (simp add: mult_2 replicate_add)
  then show ?thesis
    using assms by (simp add: ket_def)
qed

lemma h_layer_on_zero_pair:
  assumes "length w = n" "length r = n"
  shows "run (map H_gate [0..<n]) (ket (replicate (2 * n) False)) (w @ r)
           = (if r = replicate n False then 1 else 0) / rt2 ^ n"
proof -
  have "run (map H_gate [0..<n]) (ket (replicate (2 * n) False)) (w @ r)
        = (\<Sum>u | length u = n. hsign w u * ket (replicate (2 * n) False) (u @ r)) / rt2 ^ n"
    using run_h_layer[of n "w @ r"] assms by simp
  also have "(\<Sum>u | length u = n. hsign w u * ket (replicate (2 * n) False) (u @ r))
           = (\<Sum>u | length u = n. if u = replicate n False
                                      then (if r = replicate n False then 1 else 0) else 0)"
    by (rule sum.cong) (use assms in \<open>auto simp: ket_zeros_append\<close>)
  also have "\<dots> = (if r = replicate n False then 1 else 0)"
    by (simp add: sum.delta)
  finally show ?thesis .
qed

lemma simon_final_state:
  "final_state (simon_circuit s swaps)
     = run (map H_gate [0..<length s])
         (run ([Barrier] @ simon_oracle s swaps @ [Barrier])
            (run (map H_gate [0..<length s]) (ket (replicate (2 * length s) False))))"
  by (simp add: final_state_def simon_circuit_def Let_def)

lemma simon_oracle_classical: "list_all is_classical ([Barrier] @ simon_oracle s swaps @ [Barrier])"
  by (auto simp: simon_oracle_def Let_def list_all_iff)

text \<open>
  A basis state in which a qubit \<open>i\<close> with \<open>s[i] = 1\<close> is 1 has amplitude 0 at the end of
  the Simon circuit.
\<close>

lemma simon_amplitude_zero:
  assumes "swaps_drawn (length s) swaps" "length x = 2 * length s"
    and "i < length s" "s ! i = CHR ''1''" "x ! i"
  shows "final_state (simon_circuit s swaps) x = 0"
proof -
  let ?n = "length s"
  let ?H = "map H_gate [0..<?n]"
  let ?G = "[Barrier] @ simon_oracle s swaps @ [Barrier]"
  let ?\<psi>1 = "run ?H (ket (replicate (2 * ?n) False))"
  let ?\<psi>2 = "run ?G ?\<psi>1"
  let ?v = "drop ?n x"
  let ?u = "take ?n x"
  have lv: "length ?v = ?n" and lu: "length ?u = ?n" using assms(2) by simp_all
  from simon_rev_oracle[OF assms(1) lv] obtain v' where v': "length v' = ?n"
    and ro: "\<And>w. length w = ?n \<Longrightarrow> basis_run (rev (simon_oracle s swaps)) (w @ ?v)
             = w @ map (\<lambda>i. (v' ! i \<noteq> (s ! i = CHR ''1'' \<and> w ! i)) \<noteq> w ! i) [0..<?n]"
    by blast
  define R where "R w = map (\<lambda>i. (v' ! i \<noteq> (s ! i = CHR ''1'' \<and> w ! i)) \<noteq> w ! i) [0..<?n]" for w
  have \<psi>2: "?\<psi>2 (w @ ?v) = (if R w = replicate ?n False then 1 else 0) / rt2 ^ ?n"
    if w: "length w = ?n" for w
  proof -
    have "?\<psi>2 (w @ ?v) = ?\<psi>1 (basis_run (rev ?G) (w @ ?v))"
      by (rule run_classical[OF simon_oracle_classical])
    also have "basis_run (rev ?G) (w @ ?v) = w @ R w"
      using ro[OF w] by (simp add: R_def)
    also have "?\<psi>1 (w @ R w) = (if R w = replicate ?n False then 1 else 0) / rt2 ^ ?n"
      by (rule h_layer_on_zero_pair) (simp_all add: w R_def)
    finally show ?thesis .
  qed
  have R_toggle: "R (toggle i w) = R w" if w: "length w = ?n" for w
    unfolding R_def by (rule map_cong) (use assms(3,4) w in \<open>auto simp: nth_toggle\<close>)
  have ui: "?u ! i" using assms(3,5) by simp
  have anti: "hsign ?u (toggle i w) * ?\<psi>2 (toggle i w @ ?v) = - (hsign ?u w * ?\<psi>2 (w @ ?v))"
    if w: "length w = ?n" for w
  proof -
    have "length (toggle i w) = ?n" using w by simp
    from \<psi>2[OF this] \<psi>2[OF w] R_toggle[OF w]
    have a1: "?\<psi>2 (toggle i w @ ?v) = ?\<psi>2 (w @ ?v)" by (simp only:)
    have a2: "hsign ?u (toggle i w) = - hsign ?u w"
      by (rule hsign_toggle) (use w lu assms(3) ui in simp_all)
    show ?thesis unfolding a1 a2 by simp
  qed
  have "final_state (simon_circuit s swaps) x
        = (\<Sum>w | length w = ?n. hsign ?u w * ?\<psi>2 (w @ ?v)) / rt2 ^ ?n"
    unfolding simon_final_state using run_h_layer[of ?n x ?\<psi>2] assms(2) by simp
  also have "(\<Sum>w | length w = ?n. hsign ?u w * ?\<psi>2 (w @ ?v)) = 0"
    by (rule sum_antisymmetric[where i = i]) (rule anti)
  finally show ?thesis by simp
qed

lemma simon_outcome_key:
  "length x = 2 * length s \<Longrightarrow>
     outcome_key (simon_circuit s swaps) x = rev (map bit_char (take (length s) x))"
  using measure_all[of "length s" x] by (simp add: outcome_key_def simon_circuit_def Let_def)

lemma simon_possible_outcome:
  assumes "swaps_drawn (length s) swaps" "outcome_prob (simon_circuit s swaps) key \<noteq> 0"
  obtains x where "length x = 2 * length s" "rev key = map bit_char (take (length s) x)"
    and "\<And>i. i < length s \<Longrightarrow> s ! i = CHR ''1'' \<Longrightarrow> \<not> x ! i"
proof -
  let ?C = "simon_circuit s swaps"
  have nq: "num_qubits ?C = 2 * length s"
    by (simp add: simon_circuit_def Let_def)
  have "(\<Sum>x | length x = 2 * length s \<and> outcome_key ?C x = key. (cmod (final_state ?C x))\<^sup>2) \<noteq> 0"
    using assms(2) unfolding outcome_prob_sum nq .
  then obtain x where "x \<in> {x. length x = 2 * length s \<and> outcome_key ?C x = key}"
    and "(cmod (final_state ?C x))\<^sup>2 \<noteq> 0"
    by (rule sum.not_neutral_contains_not_neutral)
  then have x: "length x = 2 * length s" "outcome_key ?C x = key"
    and amp: "final_state ?C x \<noteq> 0"
    by simp_all
  have "rev key = map bit_char (take (length s) x)"
    using x by (simp add: simon_outcome_key flip: x(2))
  moreover have "\<not> x ! i" if "i < length s" "s ! i = CHR ''1''" for i
    using simon_amplitude_zero[OF assms(1) x(1) that] amp by blast
  ultimately show ?thesis using that x(1) by blast
qed

lemma int_of_char_bits [simp]:
  "int_of_char CHR ''0'' = Inr 0" "int_of_char CHR ''1'' = Inr 1"
  by (simp_all add: int_of_char_def)

lemma bdotz_loop_zero:
  assumes "\<forall>i\<in>set js. i < length z \<and> (z ! i = CHR ''0'' \<or> z ! i = CHR ''1'')
             \<and> (b ! i = CHR ''0'' \<or> (b ! i = CHR ''1'' \<and> z ! i = CHR ''0''))"
  shows "bdotz_loop b z acc js = Inr acc"
  using assms by (induction js arbitrary: acc) auto

text \<open>
  Read in qubit order (the counts key reversed), every outcome the Simon circuit can give
  is orthogonal to \<open>s\<close>, for every string of 0 and 1 characters and every draw of swaps.
\<close>

lemma simon_reversed_key_orthogonal:
  assumes "set s \<subseteq> {CHR ''0'', CHR ''1''}" "swaps_drawn (length s) swaps"
    and "outcome_prob (simon_circuit s swaps) key \<noteq> 0"
  shows "bdotz s (rev key) = Inr 0"
proof -
  from simon_possible_outcome[OF assms(2,3)] obtain x where x: "length x = 2 * length s"
    and key: "rev key = map bit_char (take (length s) x)"
    and zero: "\<And>i. i < length s \<Longrightarrow> s ! i = CHR ''1'' \<Longrightarrow> \<not> x ! i"
    by blast
  have "bdotz_loop s (rev key) 0 [0..<length s] = Inr 0"
  proof (rule bdotz_loop_zero, intro ballI)
    fix i assume "i \<in> set [0..<length s]"
    then have i: "i < length s" by simp
    then have "s ! i \<in> {CHR ''0'', CHR ''1''}" using assms(1) nth_mem by blast
    moreover have "rev key ! i = bit_char (x ! i)"
      using i x by (simp add: key)
    ultimately show "i < length (rev key) \<and> (rev key ! i = CHR ''0'' \<or> rev key ! i = CHR ''1'')
             \<and> (s ! i = CHR ''0'' \<or> (s ! i = CHR ''1'' \<and> rev key ! i = CHR ''0''))"
      using i x zero[OF i] by (auto simp: key bit_char_def)
  qed
  then show ?thesis by (simp add: bdotz_def)
qed

section \<open>The run recorded in the Simon notebook\<close>

text \<open>
  The Simon notebook records one run, for \<open>s = 1001\<close> with 1024 shots: its counts hold
  the keys 0000, 0010, 0100 and 0110. The model gives no other key a chance, whatever
  swaps the oracle builder drew.
\<close>

lemma simon_1001_outcomes:
  assumes "swaps_drawn 4 swaps" "outcome_prob (simon_circuit ''1001'' swaps) key \<noteq> 0"
  shows "key \<in> {''0000'', ''0010'', ''0100'', ''0110''}"
proof -
  have len: "length ''1001'' = 4" by simp
  from simon_possible_outcome[of "''1001''" swaps key] assms
  obtain x where x: "length x = 8" and key: "rev key = map bit_char (take 4 x)"
    and zero: "\<And>i. i < 4 \<Longrightarrow> ''1001'' ! i = CHR ''1'' \<Longrightarrow> \<not> x ! i"
    unfolding len by auto
  have z0: "\<not> x ! 0" using zero[of 0] by simp
  have z3: "\<not> x ! 3" using zero[of 3] by (simp add: numeral_3_eq_3)
  have "take 4 x = [x ! 0, x ! 1, x ! 2, x ! 3]"
    using x by (simp add: eval_nat_numeral take_Suc_conv_app_nth)
  then have "rev key = [CHR ''0'', bit_char (x ! 1), bit_char (x ! 2), CHR ''0'']"
    using key z0 z3 by (simp add: bit_char_def)
  then have "key = [CHR ''0'', bit_char (x ! 2), bit_char (x ! 1), CHR ''0'']"
    by (metis rev.simps rev_rev_ident append_Cons append_Nil)
  then show ?thesis
    by (cases "x ! 1"; cases "x ! 2") (simp_all add: bit_char_def)
qed

end
